theory Spec2Isabelle
  imports Main "HOL-Library.Word"
begin

section \<open>The buffer manager of buffer.cpp\<close>

text \<open>
  A shallow embedding of \<^verbatim>\<open>src/buffer.cpp\<close> (class \<^verbatim>\<open>BufMgr\<close>): the constructor,
  \<^verbatim>\<open>advanceClock\<close>, \<^verbatim>\<open>allocBuf\<close>, \<^verbatim>\<open>readPage\<close>, \<^verbatim>\<open>unPinPage\<close>, \<^verbatim>\<open>flushFile\<close>,
  \<^verbatim>\<open>allocPage\<close> and \<^verbatim>\<open>disposePage\<close>.

  Every operation takes the state and returns an outcome together with the state it leaves
  behind: a C++ exception does not undo the assignments made before the \<^verbatim>\<open>throw\<close>, so an
  error comes with the state at the point where it was raised.
\<close>

subsection \<open>Data\<close>

type_synonym FrameId = "32 word"  \<comment> \<open>\<^verbatim>\<open>std::uint32_t\<close>\<close>
type_synonym PageId = "32 word"   \<comment> \<open>\<^verbatim>\<open>std::uint32_t\<close>\<close>
type_synonym File = nat           \<comment> \<open>the identity of a \<^verbatim>\<open>File\<close> object; a \<^verbatim>\<open>File*\<close> is a
                                      \<open>File option\<close>, \<open>None\<close> the null pointer\<close>

text \<open>
  Modelled from the spec: the class \<^verbatim>\<open>Page\<close> (page.h is not part of the sources). A page is
  an opaque block of bytes that carries its own page number.
\<close>

record Page =
  page_number :: PageId
  contents :: string

text \<open>
  Modelled from the spec: the class \<^verbatim>\<open>BufDesc\<close> with \<^verbatim>\<open>Set\<close> and \<^verbatim>\<open>Clear\<close> (buffer.h is
  not part of the sources). The fields are those buffer.cpp reads and writes; \<open>pinCnt\<close> is
  a natural number as in section 3 of the specification. \<^verbatim>\<open>Set(file, pageNo)\<close> assigns the
  owner and sets \<open>valid = true\<close>, \<open>pinCnt = 1\<close>, \<open>dirty = false\<close>, \<open>refbit = false\<close>;
  \<^verbatim>\<open>Clear()\<close> sets \<open>valid = false\<close>, \<open>pinCnt = 0\<close>, \<open>dirty = false\<close>, \<open>refbit = false\<close>
  and forgets the owner: the file pointer becomes null and the page number is none.
\<close>

record BufDesc =
  fileptr :: "File option"  \<comment> \<open>the member \<^verbatim>\<open>file\<close>\<close>
  pageNo :: "PageId option"
  frameNo :: FrameId
  pinCnt :: nat
  dirty :: bool
  valid :: bool
  refbit :: bool

definition Set :: "BufDesc \<Rightarrow> File \<Rightarrow> PageId \<Rightarrow> BufDesc" where
  "Set bd filePtr pageNum =
     bd\<lparr>fileptr := Some filePtr, pageNo := Some pageNum, pinCnt := 1,
        dirty := False, valid := True, refbit := False\<rparr>"

definition Clear :: "BufDesc \<Rightarrow> BufDesc" where
  "Clear bd =
     bd\<lparr>pinCnt := 0, fileptr := None, pageNo := None,
        dirty := False, refbit := False, valid := False\<rparr>"

text \<open>
  The exceptions buffer.cpp throws or lets through, with the arguments it passes
  (\<^verbatim>\<open>file->filename()\<close> is represented by the file itself). Behaviour that C++ leaves
  undefined is made a result of its own: dereferencing a null \<^verbatim>\<open>File*\<close>, indexing
  \<^verbatim>\<open>bufDescTable\<close> or \<^verbatim>\<open>bufPool\<close> outside the allocated array, and \<^verbatim>\<open>% numBufs\<close> with
  \<open>numBufs = 0\<close>.
\<close>

type_synonym file_error = nat

datatype error =
    BufferExceededException
  | PageNotPinnedException File PageId FrameId
  | PagePinnedException File "PageId option" FrameId
  | BadBufferException FrameId bool bool bool
  | HashNotFoundException
  | FileException file_error
  | NullPointer
  | OutOfBounds
  | DivisionByZero

text \<open>
  Modelled from the spec: the \<^verbatim>\<open>File\<close> handle (file.h is not part of the sources). The four
  operations the manager calls are parameters of the model, so that every theorem holds for
  any file implementation: each takes the disk, may fail with an I/O error (leaving the disk
  as it is) and otherwise returns its result and the new disk. Every call the manager makes
  is recorded in \<open>io_log\<close>, in order, whether it succeeds or not.
\<close>

datatype io_call =
    ReadPage File PageId
  | WritePage File Page
  | AllocatePage File
  | DeletePage File PageId

record 'd file_ops =
  f_readPage :: "'d \<Rightarrow> File \<Rightarrow> PageId \<Rightarrow> file_error + Page"
  f_writePage :: "'d \<Rightarrow> File \<Rightarrow> Page \<Rightarrow> file_error + 'd"
  f_allocatePage :: "'d \<Rightarrow> File \<Rightarrow> file_error + Page \<times> 'd"
  f_deletePage :: "'d \<Rightarrow> File \<Rightarrow> PageId \<Rightarrow> file_error + 'd"

text \<open>
  The members of \<^verbatim>\<open>BufMgr\<close>, followed by the environment (\<open>disk\<close> and \<open>io_log\<close>).

  Modelled from the spec: the class \<^verbatim>\<open>BufHashTbl\<close> (bufHashTbl.h is not part of the
  sources), an associative map from (file, pageNo) to a frame index with unique keys:
  \<^verbatim>\<open>lookup\<close> and \<^verbatim>\<open>remove\<close> fail with \<open>HashNotFoundException\<close> when the key is absent,
  \<^verbatim>\<open>insert\<close> has the precondition that the key is absent (here it stores the entry).
\<close>

record 'd state =
  numBufs :: "32 word"
  bufDescTable :: "BufDesc list"
  bufPool :: "Page list"
  hashTable :: "File option \<times> PageId option \<rightharpoonup> FrameId"
  clockHand :: FrameId
  disk :: 'd
  io_log :: "io_call list"

type_synonym ('a, 'd) result = "(error + 'a) \<times> 'd state"

subsection \<open>Construction\<close>

text \<open>
  \<^verbatim>\<open>BufMgr::BufMgr(bufs)\<close>: \<open>bufs\<close> default-constructed descriptors (cleared, by the
  specification's invariant 2) with \<open>frameNo = i\<close> and \<open>valid = false\<close>, \<open>bufs\<close> pages, an
  empty hash table, and \<open>clockHand = bufs - 1\<close> in 32-bit arithmetic. The size of the hash
  table (computed in floating point) does not show in the map.
\<close>

definition new_BufDesc :: BufDesc where
  "new_BufDesc =
     \<lparr>fileptr = None, pageNo = None, frameNo = 0, pinCnt = 0,
      dirty = False, valid = False, refbit = False\<rparr>"

definition new_Page :: Page where
  "new_Page = \<lparr>page_number = 0, contents = []\<rparr>"

definition BufMgr :: "32 word \<Rightarrow> 'd \<Rightarrow> 'd state" where
  "BufMgr bufs d =
     \<lparr>numBufs = bufs,
      bufDescTable = map (\<lambda>i. new_BufDesc\<lparr>frameNo := of_nat i, valid := False\<rparr>) [0..<unat bufs],
      bufPool = replicate (unat bufs) new_Page,
      hashTable = Map.empty,
      clockHand = bufs - 1,
      disk = d,
      io_log = []\<rparr>"

subsection \<open>The clock\<close>

definition advanceClock :: "'d state \<Rightarrow> error + 'd state" where
  "advanceClock s =
     (if numBufs s = 0 then Inl DivisionByZero
      else Inr (s\<lparr>clockHand := (clockHand s + 1) mod numBufs s\<rparr>))"

text \<open>
  The call \<^verbatim>\<open>fp->writePage(bufPool[i])\<close> on the file pointer \<open>fp\<close> of a descriptor.
\<close>

definition writePage_call ::
  "'d file_ops \<Rightarrow> File option \<Rightarrow> nat \<Rightarrow> 'd state \<Rightarrow> (unit, 'd) result" where
  "writePage_call fs fp i s =
     (case fp of
        None \<Rightarrow> (Inl NullPointer, s)
      | Some f \<Rightarrow>
          if \<not> i < length (bufPool s) then (Inl OutOfBounds, s)
          else
            let s1 = s\<lparr>io_log := io_log s @ [WritePage f (bufPool s ! i)]\<rparr> in
            (case f_writePage fs (disk s) f (bufPool s ! i) of
               Inl e \<Rightarrow> (Inl (FileException e), s1)
             | Inr d' \<Rightarrow> (Inr (), s1\<lparr>disk := d'\<rparr>)))"

text \<open>
  The branch of \<^verbatim>\<open>allocBuf\<close> that takes the frame under the hand (lines 54 to 60): write
  the page back when the frame is dirty, remove the frame's key from the hash table, clear
  the descriptor and return its \<open>frameNo\<close>.
\<close>

definition evict :: "'d file_ops \<Rightarrow> 'd state \<Rightarrow> (FrameId, 'd) result" where
  "evict fs s =
     (let h = unat (clockHand s); bufferDesc = bufDescTable s ! h in
      (case (if dirty bufferDesc then writePage_call fs (fileptr bufferDesc) h s
             else (Inr (), s)) of
         (Inl e, s1) \<Rightarrow> (Inl e, s1)
       | (Inr _, s1) \<Rightarrow>
           (case hashTable s1 (fileptr bufferDesc, pageNo bufferDesc) of
              None \<Rightarrow> (Inl HashNotFoundException, s1)
            | Some _ \<Rightarrow>
                (Inr (frameNo bufferDesc),
                 s1\<lparr>hashTable := (hashTable s1)((fileptr bufferDesc, pageNo bufferDesc) := None),
                    bufDescTable := (bufDescTable s1)[h := Clear bufferDesc]\<rparr>))))"

text \<open>
  What one pass through the body of the \<^verbatim>\<open>while (true)\<close> loop decides before the common
  tail \<^verbatim>\<open>bufferDesc.refbit = false; advanceClock();\<close> (lines 47 to 61): leave the loop with
  a result, or go on with the new value of \<open>pinnedCnt\<close>.
\<close>

datatype 'd visit = Leave "(FrameId, 'd) result" | Go_on "32 word"

definition inspect :: "'d file_ops \<Rightarrow> 32 word \<Rightarrow> 'd state \<Rightarrow> 'd visit" where
  "inspect fs pinnedCnt s =
     (let bufferDesc = bufDescTable s ! unat (clockHand s) in
      if pinCnt bufferDesc > 0 then
        (if pinnedCnt + 1 = numBufs s then Leave (Inl BufferExceededException, s)
         else Go_on (pinnedCnt + 1))
      else if \<not> refbit bufferDesc then Leave (evict fs s)
      else Go_on pinnedCnt)"

text \<open>
  The statement \<^verbatim>\<open>bufferDesc.refbit = false\<close> of the common tail, and the number of frames
  whose reference bit is set (it measures the progress of the loop).
\<close>

definition clear_refbit :: "'d state \<Rightarrow> 'd state" where
  "clear_refbit s =
     s\<lparr>bufDescTable :=
         (bufDescTable s)[unat (clockHand s) :=
            (bufDescTable s ! unat (clockHand s))\<lparr>refbit := False\<rparr>]\<rparr>"

definition refbits :: "'d state \<Rightarrow> nat" where
  "refbits s = length (filter refbit (bufDescTable s))"

text \<open>
  The loop \<^verbatim>\<open>while (true)\<close> of \<^verbatim>\<open>allocBuf\<close>, with the local counter \<open>pinnedCnt\<close> (a
  \<^verbatim>\<open>uint32_t\<close>) as an argument. Its termination is proved below.
\<close>

function allocBuf_loop ::
  "'d file_ops \<Rightarrow> 32 word \<Rightarrow> 'd state \<Rightarrow> (FrameId, 'd) result" where
  "allocBuf_loop fs pinnedCnt s =
     (if \<not> unat (clockHand s) < length (bufDescTable s) then (Inl OutOfBounds, s)
      else
        (case inspect fs pinnedCnt s of
           Leave r \<Rightarrow> r
         | Go_on pinnedCnt' \<Rightarrow>
             (case advanceClock (clear_refbit s) of
                Inl e \<Rightarrow> (Inl e, clear_refbit s)
              | Inr s' \<Rightarrow> allocBuf_loop fs pinnedCnt' s')))"
  by pat_completeness auto

definition allocBuf :: "'d file_ops \<Rightarrow> 'd state \<Rightarrow> (FrameId, 'd) result" where
  "allocBuf fs s = allocBuf_loop fs 0 s"

subsection \<open>The public operations\<close>

text \<open>
  \<^verbatim>\<open>readPage\<close> returns \<^verbatim>\<open>&bufPool[frameId]\<close>; the handle is the frame index. The callers
  pass a \<^verbatim>\<open>File*\<close> that points to a file, so the operations take a \<open>File\<close>.
\<close>

definition readPage :: "'d file_ops \<Rightarrow> File \<Rightarrow> PageId \<Rightarrow> 'd state \<Rightarrow> (FrameId, 'd) result" where
  "readPage fs f pageNum s =
     (case hashTable s (Some f, Some pageNum) of
        None \<Rightarrow>
          (case allocBuf fs s of
             (Inl e, s1) \<Rightarrow> (Inl e, s1)
           | (Inr frameId, s1) \<Rightarrow>
               let s2 = s1\<lparr>io_log := io_log s1 @ [ReadPage f pageNum]\<rparr> in
               (case f_readPage fs (disk s1) f pageNum of
                  Inl e \<Rightarrow> (Inl (FileException e), s2)
                | Inr pg \<Rightarrow>
                    if \<not> unat frameId < length (bufPool s2) then (Inl OutOfBounds, s2)
                    else
                      let s3 = s2\<lparr>bufPool := (bufPool s2)[unat frameId := pg],
                                  hashTable := (hashTable s2)((Some f, Some pageNum) \<mapsto> frameId)\<rparr>
                      in
                      if \<not> unat frameId < length (bufDescTable s3) then (Inl OutOfBounds, s3)
                      else
                        (Inr frameId,
                         s3\<lparr>bufDescTable := (bufDescTable s3)[unat frameId :=
                               Set (bufDescTable s3 ! unat frameId) f pageNum]\<rparr>)))
      | Some frameId \<Rightarrow>
          if \<not> unat frameId < length (bufDescTable s) then (Inl OutOfBounds, s)
          else
            let bufferDesc = bufDescTable s ! unat frameId in
            (Inr frameId,
             s\<lparr>bufDescTable := (bufDescTable s)[unat frameId :=
                  bufferDesc\<lparr>refbit := True, pinCnt := pinCnt bufferDesc + 1\<rparr>]\<rparr>))"

definition unPinPage :: "File \<Rightarrow> PageId \<Rightarrow> bool \<Rightarrow> 'd state \<Rightarrow> (unit, 'd) result" where
  "unPinPage f pageNum dirtyArg s =
     (case hashTable s (Some f, Some pageNum) of
        None \<Rightarrow> (Inr (), s)
      | Some frameId \<Rightarrow>
          if \<not> unat frameId < length (bufDescTable s) then (Inl OutOfBounds, s)
          else
            let bufferDesc = bufDescTable s ! unat frameId in
            if pinCnt bufferDesc > 0 then
              let bd1 = bufferDesc\<lparr>pinCnt := pinCnt bufferDesc - 1\<rparr>;
                  bd2 = (if dirtyArg then bd1\<lparr>dirty := True\<rparr> else bd1)
              in (Inr (), s\<lparr>bufDescTable := (bufDescTable s)[unat frameId := bd2]\<rparr>)
            else (Inl (PageNotPinnedException f pageNum frameId), s))"

text \<open>
  The body of the loop of \<^verbatim>\<open>flushFile\<close> for the frame \<open>i\<close> (lines 105 to 119).
\<close>

definition flushFile_frame :: "'d file_ops \<Rightarrow> File \<Rightarrow> nat \<Rightarrow> 'd state \<Rightarrow> (unit, 'd) result" where
  "flushFile_frame fs f i s =
     (if \<not> i < length (bufDescTable s) then (Inl OutOfBounds, s)
      else
        let bufferDesc = bufDescTable s ! i in
        if fileptr bufferDesc = Some f then
          (if pinCnt bufferDesc > 0 then
             (Inl (PagePinnedException f (pageNo bufferDesc) (frameNo bufferDesc)), s)
           else if \<not> valid bufferDesc then
             (Inl (BadBufferException (frameNo bufferDesc) (dirty bufferDesc)
                     (valid bufferDesc) (refbit bufferDesc)), s)
           else
             (case (if dirty bufferDesc then
                      (case writePage_call fs (fileptr bufferDesc) i s of
                         (Inl e, s1) \<Rightarrow> (Inl e, s1)
                       | (Inr u, s1) \<Rightarrow>
                           (Inr u, s1\<lparr>bufDescTable :=
                                        (bufDescTable s1)[i := bufferDesc\<lparr>dirty := False\<rparr>]\<rparr>))
                    else (Inr (), s)) of
                (Inl e, s1) \<Rightarrow> (Inl e, s1)
              | (Inr u, s1) \<Rightarrow>
                  (case hashTable s1 (Some f, pageNo bufferDesc) of
                     None \<Rightarrow> (Inl HashNotFoundException, s1)
                   | Some _ \<Rightarrow>
                       (Inr u,
                        s1\<lparr>hashTable := (hashTable s1)((Some f, pageNo bufferDesc) := None),
                           bufDescTable :=
                             (bufDescTable s1)[i := Clear (bufDescTable s1 ! i)]\<rparr>))))
        else (Inr (), s))"

text \<open>
  The loop \<^verbatim>\<open>for (FrameId i = 0; i < numBufs; i++)\<close> of \<^verbatim>\<open>flushFile\<close>, as a recursion over
  the indices still to visit; an exception ends it.
\<close>

fun flushFile_loop :: "'d file_ops \<Rightarrow> File \<Rightarrow> nat list \<Rightarrow> 'd state \<Rightarrow> (unit, 'd) result" where
  "flushFile_loop fs f [] s = (Inr (), s)"
| "flushFile_loop fs f (i # rest) s =
     (case flushFile_frame fs f i s of
        (Inl e, s1) \<Rightarrow> (Inl e, s1)
      | (Inr _, s1) \<Rightarrow> flushFile_loop fs f rest s1)"

definition flushFile :: "'d file_ops \<Rightarrow> File \<Rightarrow> 'd state \<Rightarrow> (unit, 'd) result" where
  "flushFile fs f s = flushFile_loop fs f [0..<unat (numBufs s)] s"

text \<open>
  \<^verbatim>\<open>allocPage\<close> returns the new page number and \<^verbatim>\<open>&bufPool[frameId]\<close>. Its last statement
  is \<^verbatim>\<open>bufDescTable->Set(file, pageNo)\<close>, a call on the first element of the array.
\<close>

definition allocPage :: "'d file_ops \<Rightarrow> File \<Rightarrow> 'd state \<Rightarrow> (PageId \<times> FrameId, 'd) result" where
  "allocPage fs f s =
     (let s0 = s\<lparr>io_log := io_log s @ [AllocatePage f]\<rparr> in
      (case f_allocatePage fs (disk s) f of
         Inl e \<Rightarrow> (Inl (FileException e), s0)
       | Inr (filePage, d') \<Rightarrow>
           let pageNum = page_number filePage in
           (case allocBuf fs (s0\<lparr>disk := d'\<rparr>) of
              (Inl e, s2) \<Rightarrow> (Inl e, s2)
            | (Inr frameId, s2) \<Rightarrow>
                let s3 = s2\<lparr>hashTable := (hashTable s2)((Some f, Some pageNum) \<mapsto> frameId)\<rparr> in
                if bufDescTable s3 = [] then (Inl OutOfBounds, s3)
                else
                  (Inr (pageNum, frameId),
                   s3\<lparr>bufDescTable := (bufDescTable s3)[0 :=
                         Set (bufDescTable s3 ! 0) f pageNum]\<rparr>))))"

text \<open>
  In \<^verbatim>\<open>disposePage\<close> the key removed from the hash table is the key just looked up, so
  \<^verbatim>\<open>remove\<close> finds it.
\<close>

definition disposePage :: "'d file_ops \<Rightarrow> File \<Rightarrow> PageId \<Rightarrow> 'd state \<Rightarrow> (unit, 'd) result" where
  "disposePage fs f pageNum s =
     (case hashTable s (Some f, Some pageNum) of
        None \<Rightarrow> (Inr (), s)
      | Some frameId \<Rightarrow>
          if \<not> unat frameId < length (bufDescTable s) then (Inl OutOfBounds, s)
          else
            let bufferDesc = bufDescTable s ! unat frameId in
            if valid bufferDesc then
              let s1 = s\<lparr>hashTable := (hashTable s)((Some f, Some pageNum) := None),
                         bufDescTable := (bufDescTable s)[unat frameId := Clear bufferDesc],
                         io_log := io_log s @ [DeletePage f pageNum]\<rparr>
              in
              (case f_deletePage fs (disk s) f pageNum of
                 Inl e \<Rightarrow> (Inl (FileException e), s1)
               | Inr d' \<Rightarrow> (Inr (), s1\<lparr>disk := d'\<rparr>))
            else (Inr (), s))"

subsection \<open>Predicates of the specification\<close>

text \<open>
  \<open>kept bd bd'\<close>: the descriptor \<open>bd'\<close> is \<open>bd\<close> except that its reference bit may have gone
  from true to false. \<open>refbits_cleared t t'\<close>: that holds of every frame of the table.
  \<open>swept t t'\<close>: every frame is kept or was unpinned and is now cleared.
\<close>

definition kept :: "BufDesc \<Rightarrow> BufDesc \<Rightarrow> bool" where
  "kept bd bd' \<longleftrightarrow> bd' = bd\<lparr>refbit := refbit bd'\<rparr> \<and> (refbit bd' \<longrightarrow> refbit bd)"

definition refbits_cleared :: "BufDesc list \<Rightarrow> BufDesc list \<Rightarrow> bool" where
  "refbits_cleared t t' \<longleftrightarrow> length t' = length t \<and> (\<forall>i<length t. kept (t ! i) (t' ! i))"

definition swept :: "BufDesc list \<Rightarrow> BufDesc list \<Rightarrow> bool" where
  "swept t t' \<longleftrightarrow>
     length t' = length t \<and>
     (\<forall>i<length t. kept (t ! i) (t' ! i) \<or> (pinCnt (t ! i) = 0 \<and> t' ! i = Clear (t ! i)))"

text \<open>
  \<open>sweeps fs c s c' t\<close>: the loop of \<^verbatim>\<open>allocBuf\<close>, entered with \<open>pinnedCnt = c\<close> in the state
  \<open>s\<close>, comes back to the top of the loop with \<open>pinnedCnt = c'\<close> in the state \<open>t\<close> after
  some passes (none, or more) that end in the common tail.
\<close>

inductive sweeps :: "'d file_ops \<Rightarrow> 32 word \<Rightarrow> 'd state \<Rightarrow> 32 word \<Rightarrow> 'd state \<Rightarrow> bool"
  for fs :: "'d file_ops" where
  here: "sweeps fs c s c s"
| pass: "unat (clockHand s) < length (bufDescTable s) \<Longrightarrow> inspect fs c s = Go_on c1 \<Longrightarrow>
         advanceClock (clear_refbit s) = Inr s1 \<Longrightarrow> sweeps fs c1 s1 c2 t \<Longrightarrow>
         sweeps fs c s c2 t"

text \<open>
  \<open>dirty_victim t f\<close>: the frame under the clock hand of \<open>t\<close> is the one \<^verbatim>\<open>allocBuf\<close> takes
  (unpinned, reference bit false), it is dirty, and it belongs to the file \<open>f\<close>.
\<close>

definition dirty_victim :: "'d state \<Rightarrow> File \<Rightarrow> bool" where
  "dirty_victim t f \<longleftrightarrow>
     (let h = unat (clockHand t); bd = bufDescTable t ! h in
      h < length (bufDescTable t) \<and> h < length (bufPool t) \<and>
      pinCnt bd = 0 \<and> \<not> refbit bd \<and> dirty bd \<and> fileptr bd = Some f)"

text \<open>
  Invariant 1 of the specification: every valid frame's (file, pageNo) is mapped by the hash
  table to the frame's own index, and every entry of the hash table points to a valid frame
  with that (file, pageNo).
\<close>

definition hash_frame_bijection :: "'d state \<Rightarrow> bool" where
  "hash_frame_bijection s \<longleftrightarrow>
     (\<forall>i<length (bufDescTable s). valid (bufDescTable s ! i) \<longrightarrow>
        hashTable s (fileptr (bufDescTable s ! i), pageNo (bufDescTable s ! i)) = Some (of_nat i)) \<and>
     (\<forall>k fr. hashTable s k = Some fr \<longrightarrow>
        unat fr < length (bufDescTable s) \<and> valid (bufDescTable s ! unat fr) \<and>
        (fileptr (bufDescTable s ! unat fr), pageNo (bufDescTable s ! unat fr)) = k)"

subsection \<open>Concrete pools and a concrete file\<close>

text \<open>
  Modelled from the spec: a \<^verbatim>\<open>File\<close> implementation on which the model is run at concrete
  inputs. The disk is the list of the pages of all files. \<^verbatim>\<open>readPage\<close> fails when the page is
  absent, \<^verbatim>\<open>writePage\<close> persists a page that exists on disk and fails otherwise,
  \<^verbatim>\<open>allocatePage\<close> reserves a fresh page number of the file and returns an empty page,
  \<^verbatim>\<open>deletePage\<close> frees the page.
\<close>

type_synonym disk0 = "(File \<times> Page) list"

definition has_page :: "disk0 \<Rightarrow> File \<Rightarrow> PageId \<Rightarrow> bool" where
  "has_page d f p \<longleftrightarrow> (f, p) \<in> set (map (\<lambda>(g, pg). (g, page_number pg)) d)"

definition simple_fs :: "disk0 file_ops" where
  "simple_fs =
     \<lparr>f_readPage = (\<lambda>d f p.
        case filter (\<lambda>(g, pg). g = f \<and> page_number pg = p) d of
          [] \<Rightarrow> Inl 1
        | (_, pg) # _ \<Rightarrow> Inr pg),
      f_writePage = (\<lambda>d f pg.
        if has_page d f (page_number pg)
        then Inr (map (\<lambda>(g, old).
                    if g = f \<and> page_number old = page_number pg then (g, pg) else (g, old)) d)
        else Inl 2),
      f_allocatePage = (\<lambda>d f.
        let pg = \<lparr>page_number =
                    1 + fold max (map (\<lambda>(g, pg). if g = f then page_number pg else 0) d) 0,
                  contents = []\<rparr>
        in Inr (pg, d @ [(f, pg)])),
      f_deletePage = (\<lambda>d f p.
        if has_page d f p then Inr (filter (\<lambda>(g, pg). \<not> (g = f \<and> page_number pg = p)) d)
        else Inl 3)\<rparr>"

text \<open>
  A pool given by its descriptors: \<open>frame\<close> is a valid descriptor, \<open>free_frame\<close> a descriptor
  as the constructor leaves it. \<open>pool_state\<close> completes the descriptors to a state in which
  the hash table holds exactly the valid frames, each under its own (file, pageNo), and the
  page of a frame carries the frame's page number.
\<close>

definition frame :: "FrameId \<Rightarrow> File \<Rightarrow> PageId \<Rightarrow> nat \<Rightarrow> bool \<Rightarrow> bool \<Rightarrow> BufDesc" where
  "frame i f p n d r =
     \<lparr>fileptr = Some f, pageNo = Some p, frameNo = i, pinCnt = n,
      dirty = d, valid = True, refbit = r\<rparr>"

definition free_frame :: "FrameId \<Rightarrow> BufDesc" where
  "free_frame i = new_BufDesc\<lparr>frameNo := i, valid := False\<rparr>"

definition page_of :: "BufDesc \<Rightarrow> Page" where
  "page_of bd =
     (case pageNo bd of
        None \<Rightarrow> new_Page
      | Some p \<Rightarrow> \<lparr>page_number = p, contents = ''x''\<rparr>)"

definition pool_state :: "BufDesc list \<Rightarrow> FrameId \<Rightarrow> 'd \<Rightarrow> 'd state" where
  "pool_state bds hand d =
     \<lparr>numBufs = of_nat (length bds),
      bufDescTable = bds,
      bufPool = map page_of bds,
      hashTable = map_of (map (\<lambda>bd. ((fileptr bd, pageNo bd), frameNo bd)) (filter valid bds)),
      clockHand = hand,
      disk = d,
      io_log = []\<rparr>"

text \<open>
  \<open>failed_writeback fs s x s'\<close>: in \<open>s'\<close> the frame under the clock hand is unpinned, not
  referenced and dirty, the call \<^verbatim>\<open>writePage\<close> for its page has failed with the I/O error
  \<open>x\<close>, and that call is the one call added to the log of \<open>s\<close>.
\<close>

definition failed_writeback :: "'d file_ops \<Rightarrow> 'd state \<Rightarrow> file_error \<Rightarrow> 'd state \<Rightarrow> bool" where
  "failed_writeback fs s x s' \<longleftrightarrow>
     (let h = unat (clockHand s'); victim = bufDescTable s' ! h in
      h < length (bufDescTable s') \<and> h < length (bufPool s') \<and>
      dirty victim \<and> pinCnt victim = 0 \<and> \<not> refbit victim \<and>
      (\<exists>f. fileptr victim = Some f \<and>
           f_writePage fs (disk s') f (bufPool s' ! h) = Inl x \<and>
           io_log s' = io_log s @ [WritePage f (bufPool s' ! h)]))"

text \<open>
  \<open>victim_cleared s fr s'\<close>: the frame under the clock hand of \<open>s'\<close> was unpinned in \<open>s\<close>, its
  \<open>frameNo\<close> is \<open>fr\<close>, its key was in the hash table of \<open>s\<close> and is removed in \<open>s'\<close>, and
  in \<open>s'\<close> its descriptor is cleared.
\<close>

definition victim_cleared :: "'d state \<Rightarrow> FrameId \<Rightarrow> 'd state \<Rightarrow> bool" where
  "victim_cleared s fr s' \<longleftrightarrow>
     (let h = unat (clockHand s'); bd = bufDescTable s ! h in
      h < length (bufDescTable s) \<and> pinCnt bd = 0 \<and> fr = frameNo bd \<and>
      bufDescTable s' ! h = Clear bd \<and>
      hashTable s (fileptr bd, pageNo bd) \<noteq> None \<and>
      hashTable s' = (hashTable s)((fileptr bd, pageNo bd) := None))"

text \<open>
  The keys \<^verbatim>\<open>flushFile\<close> removes from the hash table when it visits the frames \<open>js\<close> of
  the table \<open>t\<close>.
\<close>

definition flushed_keys :: "File \<Rightarrow> BufDesc list \<Rightarrow> nat list \<Rightarrow> (File option \<times> PageId option) set" where
  "flushed_keys f t js = (\<lambda>i. (Some f, pageNo (t ! i))) ` {i \<in> set js. fileptr (t ! i) = Some f}"

text \<open>
  \<open>as_constructed n s\<close>: the members of the manager are those the constructor leaves for
  \<open>n\<close> frames; only the disk and the log of calls may differ.
\<close>

definition as_constructed :: "32 word \<Rightarrow> 'd state \<Rightarrow> bool" where
  "as_constructed n s \<longleftrightarrow> s = (BufMgr n (disk s))\<lparr>io_log := io_log s\<rparr>"

text \<open>
  The pools at which the claims are run. In each the hash table and the frames agree
  (invariant 1 of the specification), an invalid frame is cleared, and a pinned frame is
  valid.
\<close>

definition page1 :: Page where
  "page1 = \<lparr>page_number = 1, contents = ''x''\<rparr>"

definition page2 :: Page where
  "page2 = \<lparr>page_number = 2, contents = ''x''\<rparr>"

definition page5 :: Page where
  "page5 = \<lparr>page_number = 5, contents = ''x''\<rparr>"

text \<open>Frame 0 free, frame 1 holds page 5 of file 7, unpinned and clean; the hand on frame 1.\<close>

definition pool_one_free :: "disk0 state" where
  "pool_one_free = pool_state [free_frame 0, frame 1 7 5 0 False False] 1 [(7, page5)]"

text \<open>Frame 0 pinned, frame 1 unpinned with its reference bit set; the hand on frame 0.\<close>

definition pool_half_pinned :: "disk0 state" where
  "pool_half_pinned =
     pool_state [frame 0 7 1 1 False False, frame 1 7 2 0 False True] 0 [(7, page1), (7, page2)]"

text \<open>Frame 0 pinned with its reference bit set, frame 1 unpinned; the hand on frame 0.\<close>

definition pool_pinned_referenced :: "disk0 state" where
  "pool_pinned_referenced =
     pool_state [frame 0 7 1 1 False True, frame 1 7 2 0 False False] 0 [(7, page1), (7, page2)]"

text \<open>Frame 0 pinned twice and clean, frame 1 unpinned and dirty.\<close>

definition pool_pins :: "disk0 state" where
  "pool_pins =
     pool_state [frame 0 7 1 2 False False, frame 1 7 2 0 True False] 0 [(7, page1), (7, page2)]"

text \<open>
  Four unpinned frames: pages 1, 3 and 4 of file 7 (1 and 4 dirty) and page 1 of file 8
  (dirty).
\<close>

definition pool_two_files :: "disk0 state" where
  "pool_two_files =
     pool_state [frame 0 7 1 0 True False, frame 1 8 1 0 True False,
                 frame 2 7 3 0 False False, frame 3 7 4 0 True True] 3
       [(7, page1), (8, page1), (7, \<lparr>page_number = 3, contents = ''x''\<rparr>),
        (7, \<lparr>page_number = 4, contents = ''x''\<rparr>)]"

text \<open>One frame, unpinned and dirty, whose page is no longer on disk: writing it back fails.\<close>

definition pool_lost_page :: "disk0 state" where
  "pool_lost_page = pool_state [frame 0 7 1 0 True True] 0 []"

text \<open>One frame, pinned.\<close>

definition pool_all_pinned :: "disk0 state" where
  "pool_all_pinned = pool_state [frame 0 7 1 1 False False] 0 [(7, page1)]"

section \<open>Termination of the clock sweep\<close>

lemma filter_update_le:
  "\<not> P y \<Longrightarrow> length (filter P (xs[i := y])) \<le> length (filter P xs)"
  by (induction xs arbitrary: i) (auto split: nat.splits)

lemma filter_update_less:
  "\<not> P y \<Longrightarrow> i < length xs \<Longrightarrow> P (xs ! i) \<Longrightarrow>
   length (filter P (xs[i := y])) < length (filter P xs)"
proof (induction xs arbitrary: i)
  case Nil
  then show ?case by simp
next
  case (Cons x xs)
  show ?case
  proof (cases i)
    case 0
    with Cons.prems show ?thesis by simp
  next
    case (Suc j)
    with Cons show ?thesis by auto
  qed
qed

lemma refbits_clear_le: "refbits (clear_refbit s) \<le> refbits s"
  by (simp add: refbits_def clear_refbit_def filter_update_le)

lemma refbits_clear_less:
  "unat (clockHand s) < length (bufDescTable s) \<Longrightarrow>
   refbit (bufDescTable s ! unat (clockHand s)) \<Longrightarrow> refbits (clear_refbit s) < refbits s"
  by (simp add: refbits_def clear_refbit_def filter_update_less)

lemma word_pred_less: "(x::32 word) \<noteq> 0 \<Longrightarrow> unat (x - 1) < unat x"
  by (simp add: unat_minus_one unat_gt_0)

lemma pinned_dist:
  "(c::32 word) + 1 \<noteq> n \<Longrightarrow> unat (n - (c + 1) - 1) < unat (n - c - 1)"
proof -
  assume "c + 1 \<noteq> n"
  then have nz: "n - c - 1 \<noteq> 0"
    by (metis diff_add_cancel add_diff_cancel_left' eq_iff_diff_eq_0)
  have "n - (c + 1) - 1 = (n - c - 1) - 1" by simp
  with word_pred_less[OF nz] show ?thesis by (simp only:)
qed

text \<open>
  The loop of \<^verbatim>\<open>allocBuf\<close> always ends: a pass that goes on either counts a pinned frame,
  which brings \<open>pinnedCnt\<close> one step closer to \<open>numBufs\<close> (in 32-bit arithmetic), or clears
  a reference bit that was set; and no pass sets a reference bit.
\<close>

termination allocBuf_loop
proof (relation "measure (\<lambda>(fs, c, s). unat (numBufs s - c - 1) + refbits s)")
  show "wf (measure (\<lambda>(fs, c, s). unat (numBufs s - c - 1) + refbits s))" by simp
next
  fix fs :: "'a file_ops" and pinnedCnt x2 and s x2a :: "'a state"
  assume h: "\<not> \<not> unat (clockHand s) < length (bufDescTable s)"
    and i: "inspect fs pinnedCnt s = Go_on x2"
    and a: "advanceClock (clear_refbit s) = Inr x2a"
  from a have f: "numBufs x2a = numBufs s" "refbits x2a = refbits (clear_refbit s)"
    by (auto simp: advanceClock_def refbits_def clear_refbit_def split: if_splits)
  show "((fs, x2, x2a), (fs, pinnedCnt, s))
          \<in> measure (\<lambda>(fs, c, s). unat (numBufs s - c - 1) + refbits s)"
  proof (cases "pinCnt (bufDescTable s ! unat (clockHand s)) > 0")
    case True
    with i have "x2 = pinnedCnt + 1" "pinnedCnt + 1 \<noteq> numBufs s"
      by (auto simp: inspect_def Let_def split: if_splits)
    with pinned_dist[of pinnedCnt "numBufs s"] refbits_clear_le[of s] f show ?thesis by simp
  next
    case False
    with i have "x2 = pinnedCnt" "refbit (bufDescTable s ! unat (clockHand s))"
      by (auto simp: inspect_def Let_def split: if_splits)
    with refbits_clear_less[of s] h f show ?thesis by simp
  qed
qed

declare allocBuf_loop.simps [simp del]

section \<open>What a sweep changes\<close>

lemma kept_refl: "kept bd bd"
  by (simp add: kept_def)

lemma kept_clear: "kept bd (bd\<lparr>refbit := False\<rparr>)"
  by (simp add: kept_def)

lemma kept_trans: "kept a b \<Longrightarrow> kept b c \<Longrightarrow> kept a c"
  by (cases a, cases b, cases c) (auto simp: kept_def)

lemma kept_fields:
  "kept a b \<Longrightarrow> pinCnt b = pinCnt a \<and> dirty b = dirty a \<and> valid b = valid a \<and>
     fileptr b = fileptr a \<and> pageNo b = pageNo a \<and> frameNo b = frameNo a"
  by (cases a, cases b) (auto simp: kept_def)

lemma kept_Clear: "kept a b \<Longrightarrow> Clear b = Clear a"
  by (cases a, cases b) (auto simp: kept_def Clear_def)

lemma refbits_cleared_refl: "refbits_cleared t t"
  by (simp add: refbits_cleared_def kept_refl)

lemma refbits_cleared_trans:
  "refbits_cleared a b \<Longrightarrow> refbits_cleared b c \<Longrightarrow> refbits_cleared a c"
  unfolding refbits_cleared_def by (auto intro: kept_trans)

lemma refbits_cleared_step: "refbits_cleared t (t[h := (t ! h)\<lparr>refbit := False\<rparr>])"
proof -
  have "kept (t ! i) (t[h := (t ! h)\<lparr>refbit := False\<rparr>] ! i)" if "i < length t" for i
  proof (cases "i = h")
    case True
    with that show ?thesis by (simp add: kept_clear)
  next
    case False
    then show ?thesis by (simp add: kept_refl)
  qed
  then show ?thesis by (simp add: refbits_cleared_def)
qed

lemma swept_refl: "swept t t"
  by (simp add: swept_def kept_refl)

lemma refbits_cleared_swept:
  assumes ab: "refbits_cleared a b" and bc: "swept b c"
  shows "swept a c"
proof -
  from ab have len: "length b = length a" by (simp add: refbits_cleared_def)
  have "kept (a ! i) (c ! i) \<or> (pinCnt (a ! i) = 0 \<and> c ! i = Clear (a ! i))"
    if "i < length a" for i
  proof -
    from ab that have k: "kept (a ! i) (b ! i)" by (simp add: refbits_cleared_def)
    from bc that len
    have "kept (b ! i) (c ! i) \<or> (pinCnt (b ! i) = 0 \<and> c ! i = Clear (b ! i))"
      by (simp add: swept_def)
    then show ?thesis
    proof
      assume "kept (b ! i) (c ! i)"
      with k have "kept (a ! i) (c ! i)" by (rule kept_trans)
      then show ?thesis ..
    next
      assume "pinCnt (b ! i) = 0 \<and> c ! i = Clear (b ! i)"
      with kept_fields[OF k] kept_Clear[OF k] show ?thesis by simp
    qed
  qed
  with bc len show ?thesis by (simp add: swept_def)
qed

lemma swept_evict: "h < length t \<Longrightarrow> pinCnt (t ! h) = 0 \<Longrightarrow> swept t (t[h := Clear (t ! h)])"
proof -
  assume h: "h < length t" and p: "pinCnt (t ! h) = 0"
  have "kept (t ! i) (t[h := Clear (t ! h)] ! i) \<or>
        (pinCnt (t ! i) = 0 \<and> t[h := Clear (t ! h)] ! i = Clear (t ! i))"
    if "i < length t" for i
  proof (cases "i = h")
    case True
    with that p show ?thesis by simp
  next
    case False
    then show ?thesis by (simp add: kept_refl)
  qed
  then show ?thesis by (simp add: swept_def)
qed

lemma clear_refbit_fields:
  "numBufs (clear_refbit s) = numBufs s" "bufPool (clear_refbit s) = bufPool s"
  "hashTable (clear_refbit s) = hashTable s" "clockHand (clear_refbit s) = clockHand s"
  "disk (clear_refbit s) = disk s" "io_log (clear_refbit s) = io_log s"
  "refbits_cleared (bufDescTable s) (bufDescTable (clear_refbit s))"
  by (simp_all add: clear_refbit_def refbits_cleared_step)

lemma advanceClock_Inr:
  "advanceClock s = Inr s1 \<Longrightarrow>
     numBufs s \<noteq> 0 \<and> s1 = s\<lparr>clockHand := (clockHand s + 1) mod numBufs s\<rparr>"
  by (auto simp: advanceClock_def split: if_splits)

lemma advanceClock_Inl: "advanceClock s = Inl e \<Longrightarrow> e = DivisionByZero \<and> numBufs s = 0"
  by (auto simp: advanceClock_def split: if_splits)

lemma writePage_call_Inl:
  "writePage_call fs fp i s = (Inl e, s') \<Longrightarrow>
     (e = NullPointer \<and> fp = None \<and> s' = s) \<or>
     (e = OutOfBounds \<and> fp \<noteq> None \<and> \<not> i < length (bufPool s) \<and> s' = s) \<or>
     (\<exists>f x. fp = Some f \<and> i < length (bufPool s) \<and> e = FileException x \<and>
        f_writePage fs (disk s) f (bufPool s ! i) = Inl x \<and>
        s' = s\<lparr>io_log := io_log s @ [WritePage f (bufPool s ! i)]\<rparr>)"
  by (auto simp: writePage_call_def Let_def split: option.splits if_splits sum.splits)

lemma writePage_call_Inr:
  "writePage_call fs fp i s = (Inr u, s') \<Longrightarrow>
     (\<exists>f d'. fp = Some f \<and> i < length (bufPool s) \<and>
        f_writePage fs (disk s) f (bufPool s ! i) = Inr d' \<and>
        s' = s\<lparr>io_log := io_log s @ [WritePage f (bufPool s ! i)], disk := d'\<rparr>)"
  by (auto simp: writePage_call_def Let_def split: option.splits if_splits sum.splits)

lemma evict_Inl:
  assumes "evict fs s = (Inl e, s')"
  shows "(e = HashNotFoundException \<or> e = NullPointer \<or> e = OutOfBounds \<or> (\<exists>x. e = FileException x)) \<and>
         numBufs s' = numBufs s \<and> bufDescTable s' = bufDescTable s \<and> bufPool s' = bufPool s \<and>
         hashTable s' = hashTable s \<and> clockHand s' = clockHand s \<and>
         (\<forall>x. e = FileException x \<longrightarrow>
            dirty (bufDescTable s ! unat (clockHand s)) \<and> disk s' = disk s \<and>
            unat (clockHand s) < length (bufPool s) \<and>
            (\<exists>f. fileptr (bufDescTable s ! unat (clockHand s)) = Some f \<and>
               f_writePage fs (disk s) f (bufPool s ! unat (clockHand s)) = Inl x \<and>
               io_log s' = io_log s @ [WritePage f (bufPool s ! unat (clockHand s))]))"
proof (cases "dirty (bufDescTable s ! unat (clockHand s))")
  case False
  with assms show ?thesis
    by (auto simp: evict_def Let_def split: option.splits)
next
  case True
  let ?h = "unat (clockHand s)"
  let ?bd = "bufDescTable s ! ?h"
  show ?thesis
  proof (cases "writePage_call fs (fileptr ?bd) ?h s")
    case (Pair r s1)
    show ?thesis
    proof (cases r)
      case (Inl e1)
      with Pair True assms have "e = e1" "s' = s1"
        by (auto simp: evict_def Let_def)
      with writePage_call_Inl[of fs "fileptr ?bd" ?h s e s'] Pair Inl True show ?thesis
        by auto
    next
      case (Inr u)
      with Pair True assms have e: "e = HashNotFoundException" "s' = s1"
        by (auto simp: evict_def Let_def split: option.splits)
      with writePage_call_Inr[of fs "fileptr ?bd" ?h s u s1] Pair Inr show ?thesis
        by auto
    qed
  qed
qed

lemma evict_Inr:
  assumes "evict fs s = (Inr fr, s')"
  shows "numBufs s' = numBufs s \<and> bufPool s' = bufPool s \<and> clockHand s' = clockHand s \<and>
         fr = frameNo (bufDescTable s ! unat (clockHand s)) \<and>
         bufDescTable s' = (bufDescTable s)[unat (clockHand s) := Clear (bufDescTable s ! unat (clockHand s))]"
proof (cases "dirty (bufDescTable s ! unat (clockHand s))")
  case False
  with assms show ?thesis
    by (auto simp: evict_def Let_def split: option.splits)
next
  case True
  let ?h = "unat (clockHand s)"
  let ?bd = "bufDescTable s ! ?h"
  show ?thesis
  proof (cases "writePage_call fs (fileptr ?bd) ?h s")
    case (Pair r s1)
    show ?thesis
    proof (cases r)
      case (Inl e1)
      with Pair True assms show ?thesis
        by (auto simp: evict_def Let_def)
    next
      case (Inr u)
      with writePage_call_Inr[of fs "fileptr ?bd" ?h s u s1] Pair Inr True assms show ?thesis
        by (auto simp: evict_def Let_def split: option.splits)
    qed
  qed
qed

lemma inspect_Leave:
  "inspect fs c s = Leave r \<Longrightarrow>
     (pinCnt (bufDescTable s ! unat (clockHand s)) > 0 \<and> c + 1 = numBufs s \<and>
        r = (Inl BufferExceededException, s)) \<or>
     (pinCnt (bufDescTable s ! unat (clockHand s)) = 0 \<and>
        \<not> refbit (bufDescTable s ! unat (clockHand s)) \<and> r = evict fs s)"
  by (auto simp: inspect_def Let_def split: if_splits)

lemma inspect_Go_on:
  "inspect fs c s = Go_on c' \<Longrightarrow>
     (pinCnt (bufDescTable s ! unat (clockHand s)) > 0 \<and> c + 1 \<noteq> numBufs s \<and> c' = c + 1) \<or>
     (pinCnt (bufDescTable s ! unat (clockHand s)) = 0 \<and>
        refbit (bufDescTable s ! unat (clockHand s)) \<and> c' = c)"
  by (auto simp: inspect_def Let_def split: if_splits)

lemma allocBuf_loop_swept:
  "allocBuf_loop fs c s = (r, s') \<Longrightarrow>
     numBufs s' = numBufs s \<and> bufPool s' = bufPool s \<and> swept (bufDescTable s) (bufDescTable s')"
proof (induction fs c s rule: allocBuf_loop.induct)
  case (1 fs c s)
  show ?case
  proof (cases "unat (clockHand s) < length (bufDescTable s)")
    case False
    with "1.prems" show ?thesis by (simp add: allocBuf_loop.simps swept_refl)
  next
    case True
    show ?thesis
    proof (cases "inspect fs c s")
      case (Leave r0)
      with True "1.prems" have r0: "r0 = (r, s')" by (simp add: allocBuf_loop.simps)
      from inspect_Leave[OF Leave] show ?thesis
      proof
        assume "0 < pinCnt (bufDescTable s ! unat (clockHand s)) \<and> c + 1 = numBufs s \<and>
                r0 = (Inl BufferExceededException, s)"
        with r0 show ?thesis by (simp add: swept_refl)
      next
        assume a: "pinCnt (bufDescTable s ! unat (clockHand s)) = 0 \<and>
                \<not> refbit (bufDescTable s ! unat (clockHand s)) \<and> r0 = evict fs s"
        show ?thesis
        proof (cases r)
          case (Inl e)
          with a r0 evict_Inl[of fs s e s'] show ?thesis by (simp add: swept_refl)
        next
          case (Inr fr)
          with a r0 evict_Inr[of fs s fr s'] True show ?thesis by (simp add: swept_evict)
        qed
      qed
    next
      case (Go_on c')
      show ?thesis
      proof (cases "advanceClock (clear_refbit s)")
        case (Inl e)
        with True Go_on "1.prems" have "s' = clear_refbit s" by (simp add: allocBuf_loop.simps)
        with clear_refbit_fields[of s] refbits_cleared_swept[OF _ swept_refl] show ?thesis by simp
      next
        case (Inr s1)
        with True Go_on "1.prems" have "allocBuf_loop fs c' s1 = (r, s')"
          by (simp add: allocBuf_loop.simps)
        with "1.IH"[OF _ Go_on Inr] True
        have ih: "numBufs s' = numBufs s1 \<and> bufPool s' = bufPool s1 \<and>
                  swept (bufDescTable s1) (bufDescTable s')" by simp
        from advanceClock_Inr[OF Inr] have s1: "numBufs s1 = numBufs s" "bufPool s1 = bufPool s"
          "bufDescTable s1 = bufDescTable (clear_refbit s)"
          by (simp_all add: clear_refbit_fields)
        with ih clear_refbit_fields(7)[of s] refbits_cleared_swept show ?thesis by metis
      qed
    qed
  qed
qed

lemma allocBuf_loop_error:
  "allocBuf_loop fs c s = (Inl e, s') \<Longrightarrow>
     hashTable s' = hashTable s \<and>
     refbits_cleared (bufDescTable s) (bufDescTable s') \<and>
     (\<forall>x. e = FileException x \<longrightarrow> failed_writeback fs s x s' \<and> disk s' = disk s) \<and>
     (e = BufferExceededException \<longrightarrow> io_log s' = io_log s \<and> disk s' = disk s)"
proof (induction fs c s rule: allocBuf_loop.induct)
  case (1 fs c s)
  show ?case
  proof (cases "unat (clockHand s) < length (bufDescTable s)")
    case False
    with "1.prems" show ?thesis by (auto simp: allocBuf_loop.simps refbits_cleared_refl)
  next
    case True
    show ?thesis
    proof (cases "inspect fs c s")
      case (Leave r0)
      with True "1.prems" have r0: "r0 = (Inl e, s')" by (simp add: allocBuf_loop.simps)
      from inspect_Leave[OF Leave] show ?thesis
      proof
        assume "0 < pinCnt (bufDescTable s ! unat (clockHand s)) \<and> c + 1 = numBufs s \<and>
                r0 = (Inl BufferExceededException, s)"
        with r0 show ?thesis by (auto simp: refbits_cleared_refl)
      next
        assume a: "pinCnt (bufDescTable s ! unat (clockHand s)) = 0 \<and>
                \<not> refbit (bufDescTable s ! unat (clockHand s)) \<and> r0 = evict fs s"
        with r0 have ev: "evict fs s = (Inl e, s')" by simp
        note f = evict_Inl[OF ev]
        have "failed_writeback fs s x s' \<and> disk s' = disk s" if "e = FileException x" for x
          using f a True that unfolding failed_writeback_def Let_def by auto
        then show ?thesis using f by (auto simp: refbits_cleared_refl)
      qed
    next
      case (Go_on c')
      show ?thesis
      proof (cases "advanceClock (clear_refbit s)")
        case (Inl e0)
        with True Go_on "1.prems" have "s' = clear_refbit s" "e = e0"
          by (simp_all add: allocBuf_loop.simps)
        with clear_refbit_fields[of s] advanceClock_Inl[OF Inl] show ?thesis by auto
      next
        case (Inr s1)
        with True Go_on "1.prems" have "allocBuf_loop fs c' s1 = (Inl e, s')"
          by (simp add: allocBuf_loop.simps)
        with "1.IH"[OF _ Go_on Inr] True
        have ih: "hashTable s' = hashTable s1 \<and>
                  refbits_cleared (bufDescTable s1) (bufDescTable s') \<and>
                  (\<forall>x. e = FileException x \<longrightarrow> failed_writeback fs s1 x s' \<and> disk s' = disk s1) \<and>
                  (e = BufferExceededException \<longrightarrow> io_log s' = io_log s1 \<and> disk s' = disk s1)"
          by simp
        from advanceClock_Inr[OF Inr] have s1: "hashTable s1 = hashTable s" "disk s1 = disk s"
          "io_log s1 = io_log s" "bufDescTable s1 = bufDescTable (clear_refbit s)"
          by (simp_all add: clear_refbit_fields)
        have "refbits_cleared (bufDescTable s) (bufDescTable s')"
          using ih s1 clear_refbit_fields(7)[of s] refbits_cleared_trans by metis
        moreover have "failed_writeback fs s x s'" if "e = FileException x" for x
          using ih that s1 by (auto simp: failed_writeback_def Let_def)
        ultimately show ?thesis using ih s1 by simp
      qed
    qed
  qed
qed

lemma refbits_cleared_nth:
  "refbits_cleared t t' \<Longrightarrow> i < length t \<Longrightarrow> kept (t ! i) (t' ! i)"
  by (simp add: refbits_cleared_def)

lemma swept_nth:
  "swept t t' \<Longrightarrow> i < length t \<Longrightarrow>
     kept (t ! i) (t' ! i) \<or> (pinCnt (t ! i) = 0 \<and> t' ! i = Clear (t ! i))"
  by (simp add: swept_def)

lemma allocBuf_loop_pinned_step:
  assumes "unat (clockHand s) < length (bufDescTable s)"
    and "pinCnt (bufDescTable s ! unat (clockHand s)) > 0"
    and "c + 1 \<noteq> numBufs s" and "numBufs s \<noteq> 0"
  shows "allocBuf_loop fs c s =
         allocBuf_loop fs (c + 1)
           (s\<lparr>bufDescTable := (bufDescTable s)[unat (clockHand s) :=
                 (bufDescTable s ! unat (clockHand s))\<lparr>refbit := False\<rparr>],
              clockHand := (clockHand s + 1) mod numBufs s\<rparr>)"
  using assms
  by (simp add: allocBuf_loop.simps[of fs c s] inspect_def Let_def advanceClock_def clear_refbit_def)

lemma evict_Inr_hash:
  assumes "evict fs s = (Inr fr, s')"
  shows "hashTable s (fileptr (bufDescTable s ! unat (clockHand s)),
                      pageNo (bufDescTable s ! unat (clockHand s))) \<noteq> None \<and>
         hashTable s' = (hashTable s)((fileptr (bufDescTable s ! unat (clockHand s)),
                      pageNo (bufDescTable s ! unat (clockHand s))) := None)"
proof (cases "dirty (bufDescTable s ! unat (clockHand s))")
  case False
  with assms show ?thesis
    by (auto simp: evict_def Let_def split: option.splits)
next
  case True
  let ?h = "unat (clockHand s)"
  let ?bd = "bufDescTable s ! ?h"
  show ?thesis
  proof (cases "writePage_call fs (fileptr ?bd) ?h s")
    case (Pair r s1)
    show ?thesis
    proof (cases r)
      case (Inl e1)
      with Pair True assms show ?thesis
        by (auto simp: evict_def Let_def)
    next
      case (Inr u)
      with writePage_call_Inr[of fs "fileptr ?bd" ?h s u s1] Pair Inr True assms show ?thesis
        by (auto simp: evict_def Let_def split: option.splits)
    qed
  qed
qed

lemma allocBuf_loop_success:
  "allocBuf_loop fs c s = (Inr fr, s') \<Longrightarrow> victim_cleared s fr s'"
proof (induction fs c s rule: allocBuf_loop.induct)
  case (1 fs c s)
  show ?case
  proof (cases "unat (clockHand s) < length (bufDescTable s)")
    case False
    with "1.prems" show ?thesis by (simp add: allocBuf_loop.simps)
  next
    case True
    show ?thesis
    proof (cases "inspect fs c s")
      case (Leave r0)
      with True "1.prems" have r0: "r0 = (Inr fr, s')" by (simp add: allocBuf_loop.simps)
      from inspect_Leave[OF Leave] r0
      have a: "pinCnt (bufDescTable s ! unat (clockHand s)) = 0" and ev: "evict fs s = (Inr fr, s')"
        by auto
      from evict_Inr[OF ev] evict_Inr_hash[OF ev] a True show ?thesis
        by (simp add: victim_cleared_def Let_def)
    next
      case (Go_on c')
      show ?thesis
      proof (cases "advanceClock (clear_refbit s)")
        case (Inl e)
        with True Go_on "1.prems" show ?thesis by (simp add: allocBuf_loop.simps)
      next
        case (Inr s1)
        with True Go_on "1.prems" have "allocBuf_loop fs c' s1 = (Inr fr, s')"
          by (simp add: allocBuf_loop.simps)
        with "1.IH"[OF _ Go_on Inr] True have ih: "victim_cleared s1 fr s'" by simp
        from advanceClock_Inr[OF Inr] have s1: "hashTable s1 = hashTable s"
          "bufDescTable s1 = bufDescTable (clear_refbit s)"
          by (simp_all add: clear_refbit_fields)
        let ?h = "unat (clockHand s')"
        from ih s1 have h: "?h < length (bufDescTable s)"
          using clear_refbit_fields(7)[of s] by (simp add: victim_cleared_def Let_def refbits_cleared_def)
        from refbits_cleared_nth[OF clear_refbit_fields(7)[of s] h]
        have k: "kept (bufDescTable s ! ?h) (bufDescTable s1 ! ?h)" by (simp add: s1)
        from ih kept_fields[OF k] kept_Clear[OF k] h s1(1) show ?thesis
          by (simp add: victim_cleared_def Let_def)
      qed
    qed
  qed
qed

lemma word_succ_less:
  assumes "unat (c::32 word) < unat n" and "c + 1 \<noteq> n"
  shows "unat (c + 1) = unat c + 1 \<and> unat (c + 1) < unat n"
proof -
  from assms(1) have "unat c + 1 < 2 ^ 32"
    using unsigned_less[of n, where 'a=nat] by simp
  then have u: "unat (c + 1) = unat c + 1"
    by (simp add: unat_word_ariths)
  have "unat c + 1 \<noteq> unat n"
  proof
    assume "unat c + 1 = unat n"
    with u have "unat (c + 1) = unat n" by simp
    then have "c + 1 = n" by (simp add: word_unat_eq_iff)
    with assms(2) show False by simp
  qed
  with assms(1) u show ?thesis by simp
qed

lemma allocBuf_loop_all_pinned:
  assumes "\<forall>i<length (bufDescTable s). pinCnt (bufDescTable s ! i) > 0"
    and "length (bufDescTable s) = unat (numBufs s)"
    and "unat (clockHand s) < unat (numBufs s)"
    and "unat c < unat (numBufs s)"
  shows "fst (allocBuf_loop fs c s) = Inl BufferExceededException"
  using assms
proof (induction "unat (numBufs s) - unat c" arbitrary: c s rule: less_induct)
  case less
  let ?h = "unat (clockHand s)"
  from less.prems have h: "?h < length (bufDescTable s)" by simp
  with less.prems have p: "pinCnt (bufDescTable s ! ?h) > 0" by simp
  show ?case
  proof (cases "c + 1 = numBufs s")
    case True
    with h p show ?thesis by (simp add: allocBuf_loop.simps[of fs c s] inspect_def)
  next
    case False
    from less.prems have nz: "numBufs s \<noteq> 0" by (auto simp: unat_gt_0)
    let ?s1 = "s\<lparr>bufDescTable := (bufDescTable s)[?h := (bufDescTable s ! ?h)\<lparr>refbit := False\<rparr>],
                 clockHand := (clockHand s + 1) mod numBufs s\<rparr>"
    from allocBuf_loop_pinned_step[OF h p False nz]
    have st: "allocBuf_loop fs c s = allocBuf_loop fs (c + 1) ?s1" .
    from word_succ_less[OF less.prems(4) False]
    have c1: "unat (c + 1) = unat c + 1" "unat (c + 1) < unat (numBufs s)" by simp_all
    have a1: "\<forall>i<length (bufDescTable ?s1). pinCnt (bufDescTable ?s1 ! i) > 0"
    proof (intro allI impI)
      fix i assume "i < length (bufDescTable ?s1)"
      then have i: "i < length (bufDescTable s)" by simp
      show "pinCnt (bufDescTable ?s1 ! i) > 0"
      proof (cases "i = ?h")
        case True
        with i p show ?thesis by simp
      next
        case False
        with i less.prems(1) show ?thesis by simp
      qed
    qed
    have a2: "length (bufDescTable ?s1) = unat (numBufs ?s1)" using less.prems(2) by simp
    have "(clockHand s + 1) mod numBufs s < numBufs s"
      using nz by (simp add: word_mod_less_divisor word_neq_0_conv)
    then have a3: "unat (clockHand ?s1) < unat (numBufs ?s1)" by (simp add: word_less_nat_alt)
    have a4: "unat (c + 1) < unat (numBufs ?s1)" using c1 by simp
    have "unat (numBufs ?s1) - unat (c + 1) < unat (numBufs s) - unat c"
      using c1 less.prems(4) by simp
    from less.hyps[OF this a1 a2 a3 a4] st show ?thesis by simp
  qed
qed

lemma sweeps_loop: "sweeps fs c s c' t \<Longrightarrow> allocBuf_loop fs c s = allocBuf_loop fs c' t"
proof (induction rule: sweeps.induct)
  case (here c s)
  show ?case ..
next
  case (pass s c c1 s1 c2 t)
  from pass.hyps(1,2,3) have "allocBuf_loop fs c s = allocBuf_loop fs c1 s1"
    by (simp add: allocBuf_loop.simps[of fs c s])
  with pass.IH show ?case by simp
qed

lemma sweeps_frames:
  "sweeps fs c s c' t \<Longrightarrow>
     hashTable t = hashTable s \<and> bufPool t = bufPool s \<and> disk t = disk s \<and>
     io_log t = io_log s \<and> numBufs t = numBufs s \<and>
     refbits_cleared (bufDescTable s) (bufDescTable t)"
proof (induction rule: sweeps.induct)
  case (here c s)
  show ?case by (simp add: refbits_cleared_refl)
next
  case (pass s c c1 s1 c2 t)
  from advanceClock_Inr[OF pass.hyps(3)]
  have s1: "hashTable s1 = hashTable s" "bufPool s1 = bufPool s" "disk s1 = disk s"
    "io_log s1 = io_log s" "numBufs s1 = numBufs s"
    "bufDescTable s1 = bufDescTable (clear_refbit s)"
    by (simp_all add: clear_refbit_fields)
  have "refbits_cleared (bufDescTable s) (bufDescTable s1)"
    using clear_refbit_fields(7)[of s] s1(6) by simp
  with pass.IH have "refbits_cleared (bufDescTable s) (bufDescTable t)"
    by (blast intro: refbits_cleared_trans)
  with pass.IH s1 show ?case by simp
qed

lemma victim_write_fails:
  assumes "dirty_victim t f"
    and "f_writePage fs (disk t) f (bufPool t ! unat (clockHand t)) = Inl x"
  shows "allocBuf_loop fs c t =
           (Inl (FileException x),
            t\<lparr>io_log := io_log t @ [WritePage f (bufPool t ! unat (clockHand t))]\<rparr>)"
proof -
  let ?h = "unat (clockHand t)"
  from assms(1) have v: "?h < length (bufDescTable t)" "?h < length (bufPool t)"
    "pinCnt (bufDescTable t ! ?h) = 0" "\<not> refbit (bufDescTable t ! ?h)"
    "dirty (bufDescTable t ! ?h)" "fileptr (bufDescTable t ! ?h) = Some f"
    by (simp_all add: dirty_victim_def Let_def)
  from v assms(2) have "evict fs t =
      (Inl (FileException x), t\<lparr>io_log := io_log t @ [WritePage f (bufPool t ! ?h)]\<rparr>)"
    by (simp add: evict_def writePage_call_def Let_def)
  with v have "inspect fs c t =
      Leave (Inl (FileException x), t\<lparr>io_log := io_log t @ [WritePage f (bufPool t ! ?h)]\<rparr>)"
    by (simp add: inspect_def Let_def)
  with v(1) show ?thesis by (simp add: allocBuf_loop.simps[of fs c t])
qed

lemma allocBuf_loop_FileException_sweeps:
  "allocBuf_loop fs c s = (Inl (FileException x), s') \<Longrightarrow>
     \<exists>c' t f. sweeps fs c s c' t \<and> dirty_victim t f \<and>
        f_writePage fs (disk t) f (bufPool t ! unat (clockHand t)) = Inl x \<and>
        s' = t\<lparr>io_log := io_log t @ [WritePage f (bufPool t ! unat (clockHand t))]\<rparr>"
proof (induction fs c s rule: allocBuf_loop.induct)
  case (1 fs c s)
  show ?case
  proof (cases "unat (clockHand s) < length (bufDescTable s)")
    case False
    with "1.prems" show ?thesis by (simp add: allocBuf_loop.simps)
  next
    case True
    show ?thesis
    proof (cases "inspect fs c s")
      case (Leave r0)
      with True "1.prems" have r0: "r0 = (Inl (FileException x), s')"
        by (simp add: allocBuf_loop.simps)
      from inspect_Leave[OF Leave] r0
      have a: "pinCnt (bufDescTable s ! unat (clockHand s)) = 0"
        "\<not> refbit (bufDescTable s ! unat (clockHand s))"
        and ev: "evict fs s = (Inl (FileException x), s')"
        by auto
      from evict_Inl[OF ev] obtain f where
        f: "dirty (bufDescTable s ! unat (clockHand s))" "unat (clockHand s) < length (bufPool s)"
          "fileptr (bufDescTable s ! unat (clockHand s)) = Some f"
          "f_writePage fs (disk s) f (bufPool s ! unat (clockHand s)) = Inl x"
        by auto
      with a True have dv: "dirty_victim s f" by (simp add: dirty_victim_def Let_def)
      from victim_write_fails[OF dv f(4), of c] Leave True r0
      have "s' = s\<lparr>io_log := io_log s @ [WritePage f (bufPool s ! unat (clockHand s))]\<rparr>"
        by (simp add: allocBuf_loop.simps[of fs c s])
      with dv f(4) sweeps.here[of fs c s] show ?thesis by blast
    next
      case (Go_on c1)
      show ?thesis
      proof (cases "advanceClock (clear_refbit s)")
        case (Inl e)
        with True Go_on "1.prems" advanceClock_Inl[OF Inl] show ?thesis
          by (simp add: allocBuf_loop.simps)
      next
        case (Inr s1)
        with True Go_on "1.prems" have "allocBuf_loop fs c1 s1 = (Inl (FileException x), s')"
          by (simp add: allocBuf_loop.simps)
        from "1.IH"[OF _ Go_on Inr this] True obtain c' t f where
          "sweeps fs c1 s1 c' t" "dirty_victim t f"
          "f_writePage fs (disk t) f (bufPool t ! unat (clockHand t)) = Inl x"
          "s' = t\<lparr>io_log := io_log t @ [WritePage f (bufPool t ! unat (clockHand t))]\<rparr>"
          by auto
        with sweeps.pass[OF True Go_on Inr] show ?thesis by blast
      qed
    qed
  qed
qed

lemma allocBuf_loop_referenced_step:
  assumes "unat (clockHand s) < length (bufDescTable s)"
    and "pinCnt (bufDescTable s ! unat (clockHand s)) = 0"
    and "refbit (bufDescTable s ! unat (clockHand s))" and "numBufs s \<noteq> 0"
  shows "allocBuf_loop fs c s =
         allocBuf_loop fs c
           (s\<lparr>bufDescTable := (bufDescTable s)[unat (clockHand s) :=
                 (bufDescTable s ! unat (clockHand s))\<lparr>refbit := False\<rparr>],
              clockHand := (clockHand s + 1) mod numBufs s\<rparr>)"
  using assms
  by (simp add: allocBuf_loop.simps[of fs c s] inspect_def Let_def advanceClock_def clear_refbit_def)

lemma allocBuf_loop_passed_refbit:
  assumes h: "unat (clockHand s) < length (bufDescTable s)"
    and g: "inspect fs c s = Go_on c1"
  shows "\<not> refbit (bufDescTable (snd (allocBuf_loop fs c s)) ! unat (clockHand s))"
proof -
  let ?h = "unat (clockHand s)"
  have cl: "\<not> refbit (bufDescTable (clear_refbit s) ! ?h)"
    using h by (simp add: clear_refbit_def)
  have len: "?h < length (bufDescTable (clear_refbit s))" using h by (simp add: clear_refbit_def)
  show ?thesis
  proof (cases "advanceClock (clear_refbit s)")
    case (Inl e)
    with h g have "allocBuf_loop fs c s = (Inl e, clear_refbit s)"
      by (simp add: allocBuf_loop.simps[of fs c s])
    with cl show ?thesis by simp
  next
    case (Inr s1)
    with h g have l1: "allocBuf_loop fs c s = allocBuf_loop fs c1 s1"
      by (simp add: allocBuf_loop.simps[of fs c s])
    obtain r s' where l: "allocBuf_loop fs c1 s1 = (r, s')" by (cases "allocBuf_loop fs c1 s1")
    from advanceClock_Inr[OF Inr] have t1: "bufDescTable s1 = bufDescTable (clear_refbit s)" by simp
    from allocBuf_loop_swept[OF l] t1
    have "swept (bufDescTable (clear_refbit s)) (bufDescTable s')" by simp
    from swept_nth[OF this len] cl have "\<not> refbit (bufDescTable s' ! ?h)"
      by (auto simp: kept_def Clear_def)
    with l1 l show ?thesis by simp
  qed
qed


lemma evict_table:
  "bufDescTable (snd (evict fs s)) = bufDescTable s \<or>
   bufDescTable (snd (evict fs s)) =
     (bufDescTable s)[unat (clockHand s) := Clear (bufDescTable s ! unat (clockHand s))]"
proof (cases "evict fs s")
  case (Pair r s')
  show ?thesis
  proof (cases r)
    case (Inl e)
    with Pair evict_Inl[of fs s e s'] show ?thesis by simp
  next
    case (Inr fr)
    with Pair evict_Inr[of fs s fr s'] show ?thesis by simp
  qed
qed

section \<open>What flushFile changes\<close>

lemma Clear_dirty: "Clear (bd\<lparr>dirty := b\<rparr>) = Clear bd"
  by (simp add: Clear_def)

lemma flushFile_frame_other:
  "i < length (bufDescTable s) \<Longrightarrow> fileptr (bufDescTable s ! i) \<noteq> Some f \<Longrightarrow>
     flushFile_frame fs f i s = (Inr (), s)"
  by (simp add: flushFile_frame_def)

lemma flushFile_frame_Inr:
  assumes "flushFile_frame fs f i s = (Inr u, s')"
  shows "i < length (bufDescTable s) \<and> numBufs s' = numBufs s \<and> bufPool s' = bufPool s \<and>
         (fileptr (bufDescTable s ! i) \<noteq> Some f \<longrightarrow> s' = s) \<and>
         (fileptr (bufDescTable s ! i) = Some f \<longrightarrow>
            bufDescTable s' = (bufDescTable s)[i := Clear (bufDescTable s ! i)] \<and>
            hashTable s' = (hashTable s)((Some f, pageNo (bufDescTable s ! i)) := None) \<and>
            io_log s' = io_log s @
              (if dirty (bufDescTable s ! i) then [WritePage f (bufPool s ! i)] else []))"
proof -
  let ?bd = "bufDescTable s ! i"
  from assms have i: "i < length (bufDescTable s)"
    by (auto simp: flushFile_frame_def split: if_splits)
  show ?thesis
  proof (cases "fileptr ?bd = Some f")
    case False
    with assms i show ?thesis by (simp add: flushFile_frame_def)
  next
    case True
    from assms i True have pv: "pinCnt ?bd = 0" "valid ?bd"
      by (auto simp: flushFile_frame_def Let_def split: if_splits)
    show ?thesis
    proof (cases "dirty ?bd")
      case False
      with assms i True pv show ?thesis
        by (auto simp: flushFile_frame_def Let_def split: option.splits)
    next
      case d: True
      obtain r s1 where w: "writePage_call fs (Some f) i s = (r, s1)"
        by (cases "writePage_call fs (Some f) i s")
      show ?thesis
      proof (cases r)
        case (Inl e)
        with assms i True pv d w show ?thesis by (simp add: flushFile_frame_def Let_def)
      next
        case (Inr u1)
        from writePage_call_Inr[of fs "Some f" i s u1 s1] w Inr
        obtain d' where s1: "i < length (bufPool s)"
          "s1 = s\<lparr>io_log := io_log s @ [WritePage f (bufPool s ! i)], disk := d'\<rparr>"
          by auto
        with assms i True pv d w Inr show ?thesis
          by (auto simp: flushFile_frame_def Let_def Clear_dirty split: option.splits)
      qed
    qed
  qed
qed

lemma flushFile_loop_none:
  "\<forall>i\<in>set js. i < length (bufDescTable s) \<and> fileptr (bufDescTable s ! i) \<noteq> Some f \<Longrightarrow>
     flushFile_loop fs f js s = (Inr (), s)"
  by (induction js) (simp_all add: flushFile_frame_other)

lemma flushFile_loop_Inr:
  "flushFile_loop fs f js s = (Inr u, s') \<Longrightarrow> distinct js \<Longrightarrow>
     numBufs s' = numBufs s \<and> bufPool s' = bufPool s \<and>
     length (bufDescTable s') = length (bufDescTable s) \<and>
     (\<forall>i\<in>set js. i < length (bufDescTable s)) \<and>
     io_log s' = io_log s @ map (\<lambda>i. WritePage f (bufPool s ! i))
        (filter (\<lambda>i. fileptr (bufDescTable s ! i) = Some f \<and> dirty (bufDescTable s ! i)) js) \<and>
     (\<forall>i<length (bufDescTable s). bufDescTable s' ! i =
        (if i \<in> set js \<and> fileptr (bufDescTable s ! i) = Some f then Clear (bufDescTable s ! i)
         else bufDescTable s ! i)) \<and>
     (\<forall>k. hashTable s' k = (if k \<in> flushed_keys f (bufDescTable s) js then None else hashTable s k))"
proof (induction js arbitrary: s)
  case Nil
  then show ?case by (simp add: flushed_keys_def)
next
  case (Cons j js)
  obtain r s1 where fr: "flushFile_frame fs f j s = (r, s1)" by (cases "flushFile_frame fs f j s")
  with Cons.prems obtain u1 where r: "r = Inr u1" and rest: "flushFile_loop fs f js s1 = (Inr u, s')"
    by (cases r) auto
  from Cons.prems have dj: "distinct js" "j \<notin> set js" by simp_all
  note F = flushFile_frame_Inr[OF fr[unfolded r]]
  note IH = Cons.IH[OF rest dj(1)]
  from IH have ih_n: "numBufs s' = numBufs s1" "bufPool s' = bufPool s1"
    "length (bufDescTable s') = length (bufDescTable s1)" by simp_all
  from IH have ih_rng: "\<forall>i\<in>set js. i < length (bufDescTable s1)" by simp
  from IH have ih_log: "io_log s' = io_log s1 @ map (\<lambda>i. WritePage f (bufPool s1 ! i))
        (filter (\<lambda>i. fileptr (bufDescTable s1 ! i) = Some f \<and> dirty (bufDescTable s1 ! i)) js)"
    by simp
  from IH have ih_tbl: "bufDescTable s' ! i =
        (if i \<in> set js \<and> fileptr (bufDescTable s1 ! i) = Some f then Clear (bufDescTable s1 ! i)
         else bufDescTable s1 ! i)" if "i < length (bufDescTable s1)" for i
    using that by blast
  from IH have ih_hash: "hashTable s' k =
        (if k \<in> flushed_keys f (bufDescTable s1) js then None else hashTable s1 k)" for k
    by blast
  from F have j: "j < length (bufDescTable s)" by simp
  from F have p1: "bufPool s1 = bufPool s" "numBufs s1 = numBufs s" by simp_all
  have same: "bufDescTable s1 ! i = bufDescTable s ! i" if "i \<noteq> j" for i
    using that F by (cases "fileptr (bufDescTable s ! j) = Some f") auto
  have same_js: "bufDescTable s1 ! i = bufDescTable s ! i" if "i \<in> set js" for i
  proof -
    from that dj have "i \<noteq> j" by auto
    then show ?thesis by (rule same)
  qed
  have len: "length (bufDescTable s1) = length (bufDescTable s)"
    using F by (cases "fileptr (bufDescTable s ! j) = Some f") auto
  have filt: "filter (\<lambda>i. fileptr (bufDescTable s1 ! i) = Some f \<and> dirty (bufDescTable s1 ! i)) js
            = filter (\<lambda>i. fileptr (bufDescTable s ! i) = Some f \<and> dirty (bufDescTable s ! i)) js"
    by (rule filter_cong) (simp_all add: same_js)
  have keys: "flushed_keys f (bufDescTable s1) js = flushed_keys f (bufDescTable s) js"
    unfolding flushed_keys_def using same_js by force
  have rng: "\<forall>i\<in>set (j # js). i < length (bufDescTable s)"
    using ih_rng len j by simp
  show ?case
  proof (cases "fileptr (bufDescTable s ! j) = Some f")
    case False
    with F have s1: "s1 = s" by simp
    have k: "flushed_keys f (bufDescTable s) (j # js) = flushed_keys f (bufDescTable s) js"
      using False unfolding flushed_keys_def by auto
    have tbl: "bufDescTable s' ! i =
        (if i \<in> set (j # js) \<and> fileptr (bufDescTable s ! i) = Some f then Clear (bufDescTable s ! i)
         else bufDescTable s ! i)" if "i < length (bufDescTable s)" for i
      using ih_tbl[of i] that s1 False by auto
    have hash: "hashTable s' k' =
        (if k' \<in> flushed_keys f (bufDescTable s) (j # js) then None else hashTable s k')" for k'
      using ih_hash[of k'] s1 k by simp
    have log: "io_log s' = io_log s @ map (\<lambda>i. WritePage f (bufPool s ! i))
        (filter (\<lambda>i. fileptr (bufDescTable s ! i) = Some f \<and> dirty (bufDescTable s ! i)) (j # js))"
      using ih_log s1 False by simp
    from ih_n s1 rng tbl hash log show ?thesis by (simp only: simp_thms) blast
  next
    case True
    with F have t1: "bufDescTable s1 = (bufDescTable s)[j := Clear (bufDescTable s ! j)]"
      and h1: "hashTable s1 = (hashTable s)((Some f, pageNo (bufDescTable s ! j)) := None)"
      and l1: "io_log s1 = io_log s @
              (if dirty (bufDescTable s ! j) then [WritePage f (bufPool s ! j)] else [])"
      by simp_all
    have k: "flushed_keys f (bufDescTable s) (j # js) =
             insert (Some f, pageNo (bufDescTable s ! j)) (flushed_keys f (bufDescTable s) js)"
      using True unfolding flushed_keys_def by auto
    have tbl: "bufDescTable s' ! i =
        (if i \<in> set (j # js) \<and> fileptr (bufDescTable s ! i) = Some f then Clear (bufDescTable s ! i)
         else bufDescTable s ! i)" if "i < length (bufDescTable s)" for i
    proof (cases "i = j")
      case eq: True
      from ih_tbl[of j] len j dj have "bufDescTable s' ! j = bufDescTable s1 ! j" by simp
      with t1 j eq True show ?thesis by simp
    next
      case False
      from ih_tbl[of i] len that have "bufDescTable s' ! i =
        (if i \<in> set js \<and> fileptr (bufDescTable s1 ! i) = Some f then Clear (bufDescTable s1 ! i)
         else bufDescTable s1 ! i)" by simp
      with same[OF False] False show ?thesis by simp
    qed
    have hash: "hashTable s' k' =
        (if k' \<in> flushed_keys f (bufDescTable s) (j # js) then None else hashTable s k')" for k'
      using ih_hash[of k'] h1 keys k by simp
    have log: "io_log s' = io_log s @ map (\<lambda>i. WritePage f (bufPool s ! i))
        (filter (\<lambda>i. fileptr (bufDescTable s ! i) = Some f \<and> dirty (bufDescTable s ! i)) (j # js))"
      using ih_log l1 p1 filt True by simp
    have n: "numBufs s' = numBufs s" "bufPool s' = bufPool s"
      "length (bufDescTable s') = length (bufDescTable s)"
      using ih_n p1 len by simp_all
    from n rng tbl hash log show ?thesis by (simp only: simp_thms) blast
  qed
qed

section \<open>A manager as constructed\<close>

lemma as_constructed_BufMgr: "as_constructed n (BufMgr n d)"
  by (simp add: as_constructed_def BufMgr_def)

lemma as_constructed_fields:
  assumes "as_constructed n s"
  shows "numBufs s = n" "hashTable s = Map.empty" "clockHand s = n - 1"
    "length (bufDescTable s) = unat n"
    "i < unat n \<Longrightarrow> bufDescTable s ! i = free_frame (of_nat i)"
proof -
  from assms have e: "s = (BufMgr n (disk s))\<lparr>io_log := io_log s\<rparr>" by (simp add: as_constructed_def)
  show "numBufs s = n" by (subst e) (simp add: BufMgr_def)
  show "hashTable s = Map.empty" by (subst e) (simp add: BufMgr_def)
  show "clockHand s = n - 1" by (subst e) (simp add: BufMgr_def)
  show "length (bufDescTable s) = unat n" by (subst e) (simp add: BufMgr_def)
  show "i < unat n \<Longrightarrow> bufDescTable s ! i = free_frame (of_nat i)"
    by (subst e) (simp add: BufMgr_def free_frame_def)
qed

lemma allocBuf_as_constructed:
  assumes "as_constructed n s"
  shows "\<exists>e. allocBuf fs s = (Inl e, s)"
proof (cases "n = 0")
  case True
  with as_constructed_fields[OF assms] show ?thesis
    by (simp add: allocBuf_def allocBuf_loop.simps[of fs 0 s])
next
  case False
  note f = as_constructed_fields[OF assms]
  from False have lt: "unat (n - 1) < unat n" by (simp add: word_pred_less)
  from f(5)[OF lt] have fr: "bufDescTable s ! unat (n - 1) = free_frame (of_nat (unat (n - 1)))" .
  have ev: "evict fs s = (Inl HashNotFoundException, s)"
    by (simp add: evict_def Let_def f(2,3) fr free_frame_def new_BufDesc_def)
  have "inspect fs 0 s = Leave (Inl HashNotFoundException, s)"
    by (simp add: inspect_def Let_def f(3) fr ev free_frame_def new_BufDesc_def)
  with lt f(3,4) show ?thesis by (simp add: allocBuf_def allocBuf_loop.simps[of fs 0 s])
qed

section \<open>The claims\<close>

lemmas fixture_defs =
  pool_state_def frame_def free_frame_def new_BufDesc_def page_of_def new_Page_def
  page1_def page2_def page5_def

lemmas sweep_defs =
  allocBuf_def allocBuf_loop.simps inspect_def evict_def writePage_call_def
  advanceClock_def clear_refbit_def Clear_def Let_def

lemma BufMgr_fields:
  "numBufs (BufMgr n d) = n" "hashTable (BufMgr n d) = Map.empty"
  "clockHand (BufMgr n d) = n - 1" "disk (BufMgr n d) = d" "io_log (BufMgr n d) = []"
  "length (bufDescTable (BufMgr n d)) = unat n" "length (bufPool (BufMgr n d)) = unat n"
  by (simp_all add: BufMgr_def)

text \<open>
  C1 (the code departs from it). The claim: for every successful call \<^verbatim>\<open>allocPage(file)\<close>,
  the frame whose index \<^verbatim>\<open>allocBuf\<close> returned is the frame that is \<^verbatim>\<open>Set\<close>: on return it is
  valid, owned by (file, the new page) and has \<open>pinCnt = 1\<close>.
  The last statement of \<^verbatim>\<open>allocPage\<close> is \<^verbatim>\<open>bufDescTable->Set(file, pageNo)\<close>, which is
  \<^verbatim>\<open>bufDescTable[0].Set(file, pageNo)\<close>. In \<open>pool_one_free\<close> the call \<^verbatim>\<open>allocBuf\<close> evicts and
  returns frame 1 and the hash table maps the new page (7, 6) to frame 1, yet frame 1 is left
  cleared and frame 0 is the one that is \<^verbatim>\<open>Set\<close>.
\<close>

theorem allocPage_sets_frame_0:
  "fst (allocBuf simple_fs
          (pool_one_free\<lparr>io_log := [AllocatePage 7],
             disk := [(7, page5), (7, \<lparr>page_number = 6, contents = []\<rparr>)]\<rparr>)) = Inr 1 \<and>
   fst (allocPage simple_fs 7 pool_one_free) = Inr (6, 1) \<and>
   bufDescTable (snd (allocPage simple_fs 7 pool_one_free)) =
     [frame 0 7 6 1 False False, free_frame 1] \<and>
   hashTable (snd (allocPage simple_fs 7 pool_one_free)) (Some 7, Some 6) = Some 1"
  by (simp add: allocPage_def sweep_defs pool_one_free_def fixture_defs simple_fs_def Set_def)

text \<open>
  C2 (the code departs from it). The claim: whenever \<^verbatim>\<open>allocBuf\<close> finds a frame with
  \<open>valid = false\<close> under the clock hand, it returns that frame at once, without write-back
  and without removing anything from the hash table, and the call succeeds.
  The code never reads \<open>valid\<close>: on a manager as constructed with three frames, the frame
  under the hand (frame 2) is not valid, \<^verbatim>\<open>allocBuf\<close> calls \<^verbatim>\<open>hashTable->remove\<close> with the
  cleared descriptor's (file, pageNo), and the call ends with \<open>HashNotFoundException\<close>,
  which \<^verbatim>\<open>readPage\<close> passes on.
\<close>

theorem allocBuf_free_frame_HashNotFound:
  "\<not> valid (bufDescTable (BufMgr 3 d) ! unat (clockHand (BufMgr 3 d))) \<and>
   allocBuf fs (BufMgr 3 d) = (Inl HashNotFoundException, BufMgr 3 d) \<and>
   readPage fs f p (BufMgr 3 d) = (Inl HashNotFoundException, BufMgr 3 d)"
proof -
  have c: "as_constructed 3 (BufMgr 3 d)"
    by (rule as_constructed_BufMgr)
  have h: "unat (clockHand (BufMgr 3 d)) = 2"
    by (simp add: BufMgr_fields)
  have fr: "bufDescTable (BufMgr 3 d) ! 2 = free_frame 2"
    using as_constructed_fields(5)[OF c, of 2] by simp
  have ev: "evict fs (BufMgr 3 d) = (Inl HashNotFoundException, BufMgr 3 d)"
    by (simp add: evict_def h fr free_frame_def new_BufDesc_def BufMgr_fields)
  have ins: "inspect fs 0 (BufMgr 3 d) = Leave (Inl HashNotFoundException, BufMgr 3 d)"
    by (simp add: inspect_def h fr ev free_frame_def new_BufDesc_def)
  have ab: "allocBuf fs (BufMgr 3 d) = (Inl HashNotFoundException, BufMgr 3 d)"
    by (simp add: allocBuf_def allocBuf_loop.simps[of fs 0 "BufMgr 3 d"] h ins BufMgr_fields)
  have "\<not> valid (bufDescTable (BufMgr 3 d) ! unat (clockHand (BufMgr 3 d)))"
    by (simp add: h fr free_frame_def)
  moreover have "readPage fs f p (BufMgr 3 d) = (Inl HashNotFoundException, BufMgr 3 d)"
    by (simp add: readPage_def BufMgr_fields ab)
  ultimately show ?thesis using ab by simp
qed

text \<open>
  C3 (the code departs from it). The claim: \<^verbatim>\<open>disposePage(file, pageNo)\<close> asks the file to
  delete the page when (file, pageNo) is absent from the hash table, and when it is present
  with a valid frame it removes the entry, clears the frame and asks the file to delete the
  page, without write-back.
  In the code the handler of the failed lookup is a bare \<^verbatim>\<open>return\<close>: page 5 of file 7 is on
  disk and not in the pool of a manager as constructed, and \<^verbatim>\<open>disposePage\<close> returns with
  the state as it was, no call of \<^verbatim>\<open>deletePage\<close> in the log and the page still on disk.
\<close>

theorem disposePage_absent_no_deletePage:
  "has_page [(7, page5)] 7 5 \<and>
   hashTable (BufMgr 3 [(7, page5)]) (Some 7, Some 5) = None \<and>
   disposePage simple_fs 7 5 (BufMgr 3 [(7, page5)]) = (Inr (), BufMgr 3 [(7, page5)]) \<and>
   io_log (BufMgr 3 [(7, page5)]) = [] \<and>
   disk (BufMgr 3 [(7, page5)]) = [(7, page5)]"
  by (simp add: disposePage_def BufMgr_fields has_page_def page5_def)

text \<open>
  C4 (the code departs from it). The claim: \<^verbatim>\<open>allocBuf\<close> raises
  \<open>BufferExceededException\<close> only when every frame has \<open>pinCnt > 0\<close> at the time of the call.
  \<open>pinnedCnt\<close> counts visits of pinned frames, not pinned frames: in \<open>pool_half_pinned\<close> the
  hand passes the pinned frame 0, clears the reference bit of the unpinned frame 1, comes
  back to frame 0 and counts it a second time, which makes \<open>pinnedCnt = numBufs = 2\<close>. The
  call raises \<open>BufferExceededException\<close> although frame 1 is valid and unpinned.
\<close>

theorem allocBuf_BufferExceeded_with_unpinned_frame:
  "pinCnt (bufDescTable pool_half_pinned ! 1) = 0 \<and>
   valid (bufDescTable pool_half_pinned ! 1) \<and>
   numBufs pool_half_pinned = 2 \<and>
   fst (allocBuf simple_fs pool_half_pinned) = Inl BufferExceededException"
  by (simp add: sweep_defs pool_half_pinned_def fixture_defs)

text \<open>
  C5 (the claim fails as stated). The claim: during a sweep of \<^verbatim>\<open>allocBuf\<close> the reference bit
  is cleared only on frames that are valid, unpinned and referenced; a visited frame with
  \<open>pinCnt > 0\<close> is only counted and keeps its reference bit.
  In \<open>pool_pinned_referenced\<close> the frame under the hand is pinned and referenced; the call
  succeeds (it returns frame 1) and has cleared the reference bit of the pinned frame 0.
\<close>

theorem allocBuf_clears_refbit_of_pinned_frame:
  "pinCnt (bufDescTable pool_pinned_referenced ! 0) > 0 \<and>
   refbit (bufDescTable pool_pinned_referenced ! 0) \<and>
   clockHand pool_pinned_referenced = 0 \<and>
   fst (allocBuf simple_fs pool_pinned_referenced) = Inr 1 \<and>
   \<not> refbit (bufDescTable (snd (allocBuf simple_fs pool_pinned_referenced)) ! 0)"
  by (simp add: sweep_defs pool_pinned_referenced_def fixture_defs)

text \<open>
  C5, amended. A pass of the loop changes the frame table at the frame under the hand only,
  and \<^verbatim>\<open>bufferDesc.refbit = false\<close> is the common tail of the loop: it runs for every frame
  the hand moves past, the pinned ones too. For the loop of \<^verbatim>\<open>allocBuf\<close> started with any
  value \<open>c\<close> of \<open>pinnedCnt\<close> on a hand inside the table, by the frame under the hand:
  \<^item> pinned, and counting it does not reach \<open>numBufs\<close>: the loop goes on with \<open>c + 1\<close>,
    that frame's reference bit cleared and the hand advanced; at the end of the call the
    frame is what it was but for a reference bit that is false;
  \<^item> unpinned with its reference bit set: the loop goes on with \<open>c\<close>, that frame's
    reference bit cleared and the hand advanced; at the end of the call its reference bit
    is false;
  \<^item> pinned, and counting it reaches \<open>numBufs\<close>: the call raises
    \<open>BufferExceededException\<close> and changes nothing;
  \<^item> unpinned with its reference bit false: the call ends taking that frame, and the frame
    table is as it was or differs in that frame, which is cleared.
  Over the whole call no reference bit is set, a pinned frame changes in nothing but its
  reference bit, and every frame is either kept but for a reference bit that went from true
  to false or was unpinned and is cleared.
\<close>

theorem allocBuf_loop_refbits:
  assumes "unat (clockHand s) < length (bufDescTable s)"
  shows "(pinCnt (bufDescTable s ! unat (clockHand s)) > 0 \<and> c + 1 \<noteq> numBufs s \<and>
            numBufs s \<noteq> 0 \<longrightarrow>
            allocBuf_loop fs c s =
            allocBuf_loop fs (c + 1)
              (s\<lparr>bufDescTable := (bufDescTable s)[unat (clockHand s) :=
                    (bufDescTable s ! unat (clockHand s))\<lparr>refbit := False\<rparr>],
                 clockHand := (clockHand s + 1) mod numBufs s\<rparr>)) \<and>
         (pinCnt (bufDescTable s ! unat (clockHand s)) > 0 \<and> c + 1 \<noteq> numBufs s \<longrightarrow>
            bufDescTable (snd (allocBuf_loop fs c s)) ! unat (clockHand s) =
            (bufDescTable s ! unat (clockHand s))\<lparr>refbit := False\<rparr>) \<and>
         (\<forall>i<length (bufDescTable s).
            (refbit (bufDescTable (snd (allocBuf_loop fs c s)) ! i) \<longrightarrow>
               refbit (bufDescTable s ! i)) \<and>
            (pinCnt (bufDescTable s ! i) > 0 \<longrightarrow>
               kept (bufDescTable s ! i) (bufDescTable (snd (allocBuf_loop fs c s)) ! i))) \<and>
         (pinCnt (bufDescTable s ! unat (clockHand s)) = 0 \<and>
          refbit (bufDescTable s ! unat (clockHand s)) \<and> numBufs s \<noteq> 0 \<longrightarrow>
            allocBuf_loop fs c s =
            allocBuf_loop fs c
              (s\<lparr>bufDescTable := (bufDescTable s)[unat (clockHand s) :=
                    (bufDescTable s ! unat (clockHand s))\<lparr>refbit := False\<rparr>],
                 clockHand := (clockHand s + 1) mod numBufs s\<rparr>)) \<and>
         (pinCnt (bufDescTable s ! unat (clockHand s)) = 0 \<and>
          refbit (bufDescTable s ! unat (clockHand s)) \<longrightarrow>
            \<not> refbit (bufDescTable (snd (allocBuf_loop fs c s)) ! unat (clockHand s))) \<and>
         (pinCnt (bufDescTable s ! unat (clockHand s)) > 0 \<and> c + 1 = numBufs s \<longrightarrow>
            allocBuf_loop fs c s = (Inl BufferExceededException, s)) \<and>
         (pinCnt (bufDescTable s ! unat (clockHand s)) = 0 \<and>
          \<not> refbit (bufDescTable s ! unat (clockHand s)) \<longrightarrow>
            allocBuf_loop fs c s = evict fs s \<and>
            (bufDescTable (snd (evict fs s)) = bufDescTable s \<or>
             bufDescTable (snd (evict fs s)) =
               (bufDescTable s)[unat (clockHand s) :=
                  Clear (bufDescTable s ! unat (clockHand s))])) \<and>
         swept (bufDescTable s) (bufDescTable (snd (allocBuf_loop fs c s)))"
proof -
  let ?h = "unat (clockHand s)"
  obtain r s' where l: "allocBuf_loop fs c s = (r, s')" by (cases "allocBuf_loop fs c s")
  from allocBuf_loop_swept[OF l] have sw: "swept (bufDescTable s) (bufDescTable s')" by simp
  have all: "(refbit (bufDescTable s' ! i) \<longrightarrow> refbit (bufDescTable s ! i)) \<and>
             (pinCnt (bufDescTable s ! i) > 0 \<longrightarrow> kept (bufDescTable s ! i) (bufDescTable s' ! i))"
    if "i < length (bufDescTable s)" for i
    using swept_nth[OF sw that] by (auto simp: kept_def Clear_def)
  have pinned: "bufDescTable s' ! ?h = (bufDescTable s ! ?h)\<lparr>refbit := False\<rparr>"
    if p: "pinCnt (bufDescTable s ! ?h) > 0" and c: "c + 1 \<noteq> numBufs s"
  proof -
    from p c have g: "inspect fs c s = Go_on (c + 1)" by (simp add: inspect_def)
    from allocBuf_loop_passed_refbit[OF assms g] l
    have "\<not> refbit (bufDescTable s' ! ?h)" by simp
    with all[OF assms] p show ?thesis by (simp add: kept_def)
  qed
  have referenced: "\<not> refbit (bufDescTable s' ! ?h)"
    if p: "pinCnt (bufDescTable s ! ?h) = 0" and r: "refbit (bufDescTable s ! ?h)"
  proof -
    from p r have g: "inspect fs c s = Go_on c" by (simp add: inspect_def)
    from allocBuf_loop_passed_refbit[OF assms g] l show ?thesis by simp
  qed
  have one: "pinCnt (bufDescTable s ! ?h) > 0 \<and> c + 1 \<noteq> numBufs s \<and> numBufs s \<noteq> 0 \<longrightarrow>
            allocBuf_loop fs c s =
            allocBuf_loop fs (c + 1)
              (s\<lparr>bufDescTable := (bufDescTable s)[?h := (bufDescTable s ! ?h)\<lparr>refbit := False\<rparr>],
                 clockHand := (clockHand s + 1) mod numBufs s\<rparr>)"
    using allocBuf_loop_pinned_step[OF assms, of c fs] by blast
  have two: "pinCnt (bufDescTable s ! ?h) > 0 \<and> c + 1 \<noteq> numBufs s \<longrightarrow>
            bufDescTable (snd (allocBuf_loop fs c s)) ! ?h = (bufDescTable s ! ?h)\<lparr>refbit := False\<rparr>"
    using pinned l by simp
  have three: "\<forall>i<length (bufDescTable s).
            (refbit (bufDescTable (snd (allocBuf_loop fs c s)) ! i) \<longrightarrow> refbit (bufDescTable s ! i)) \<and>
            (pinCnt (bufDescTable s ! i) > 0 \<longrightarrow>
               kept (bufDescTable s ! i) (bufDescTable (snd (allocBuf_loop fs c s)) ! i))"
    using all l by simp
  have four: "pinCnt (bufDescTable s ! ?h) = 0 \<and> refbit (bufDescTable s ! ?h) \<and>
            numBufs s \<noteq> 0 \<longrightarrow>
            allocBuf_loop fs c s =
            allocBuf_loop fs c
              (s\<lparr>bufDescTable := (bufDescTable s)[?h := (bufDescTable s ! ?h)\<lparr>refbit := False\<rparr>],
                 clockHand := (clockHand s + 1) mod numBufs s\<rparr>)"
    using allocBuf_loop_referenced_step[OF assms, of fs c] by blast
  have five: "pinCnt (bufDescTable s ! ?h) = 0 \<and> refbit (bufDescTable s ! ?h) \<longrightarrow>
            \<not> refbit (bufDescTable (snd (allocBuf_loop fs c s)) ! ?h)"
    using referenced l by simp
  have six: "pinCnt (bufDescTable s ! ?h) > 0 \<and> c + 1 = numBufs s \<longrightarrow>
            allocBuf_loop fs c s = (Inl BufferExceededException, s)"
    using assms by (simp add: allocBuf_loop.simps[of fs c s] inspect_def)
  have seven: "pinCnt (bufDescTable s ! ?h) = 0 \<and> \<not> refbit (bufDescTable s ! ?h) \<longrightarrow>
            allocBuf_loop fs c s = evict fs s \<and>
            (bufDescTable (snd (evict fs s)) = bufDescTable s \<or>
             bufDescTable (snd (evict fs s)) =
               (bufDescTable s)[?h := Clear (bufDescTable s ! ?h)])"
    using assms evict_table[of fs s] by (simp add: allocBuf_loop.simps[of fs c s] inspect_def)
  have eight: "swept (bufDescTable s) (bufDescTable (snd (allocBuf_loop fs c s)))"
    using sw l by simp
  from one two three four five six seven eight show ?thesis by (intro conjI)
qed

theorem allocBuf_loop_refbits_witness:
  "unat (clockHand pool_pinned_referenced) < length (bufDescTable pool_pinned_referenced) \<and>
   pinCnt (bufDescTable pool_pinned_referenced ! 0) > 0 \<and>
   numBufs pool_pinned_referenced = 2 \<and>
   allocBuf_loop simple_fs 0 pool_pinned_referenced =
     allocBuf_loop simple_fs 1
       (pool_pinned_referenced
          \<lparr>bufDescTable := [frame 0 7 1 1 False False, frame 1 7 2 0 False False],
           clockHand := 1\<rparr>) \<and>
   bufDescTable (snd (allocBuf_loop simple_fs 0 pool_pinned_referenced)) ! 0 =
     frame 0 7 1 1 False False \<and>
   unat (clockHand pool_two_files) < length (bufDescTable pool_two_files) \<and>
   pinCnt (bufDescTable pool_two_files ! 3) = 0 \<and>
   refbit (bufDescTable pool_two_files ! 3) \<and>
   allocBuf_loop simple_fs 0 pool_two_files =
     allocBuf_loop simple_fs 0
       (pool_two_files
          \<lparr>bufDescTable := [frame 0 7 1 0 True False, frame 1 8 1 0 True False,
                 frame 2 7 3 0 False False, frame 3 7 4 0 True False],
           clockHand := 0\<rparr>) \<and>
   \<not> refbit (bufDescTable (snd (allocBuf_loop simple_fs 0 pool_two_files)) ! 3)"
proof -
  let ?P = "pool_pinned_referenced"
  have h: "unat (clockHand ?P) < length (bufDescTable ?P)"
    by (simp add: pool_pinned_referenced_def fixture_defs)
  have n: "unat (clockHand ?P) = 0" "numBufs ?P = 2" "pinCnt (bufDescTable ?P ! 0) > 0"
    "(bufDescTable ?P ! 0)\<lparr>refbit := False\<rparr> = frame 0 7 1 1 False False"
    by (simp_all add: pool_pinned_referenced_def fixture_defs)
  have st: "?P\<lparr>bufDescTable := (bufDescTable ?P)[unat (clockHand ?P) :=
                 (bufDescTable ?P ! unat (clockHand ?P))\<lparr>refbit := False\<rparr>],
              clockHand := (clockHand ?P + 1) mod numBufs ?P\<rparr> =
            ?P\<lparr>bufDescTable := [frame 0 7 1 1 False False, frame 1 7 2 0 False False],
              clockHand := 1\<rparr>"
    by (simp add: pool_pinned_referenced_def fixture_defs)
  have p: "pinCnt (bufDescTable ?P ! unat (clockHand ?P)) > 0 \<and> 0 + 1 \<noteq> numBufs ?P \<and>
           numBufs ?P \<noteq> 0"
    by (simp add: n)
  note T = allocBuf_loop_refbits[OF h, of 0 simple_fs]
  from T p have "allocBuf_loop simple_fs 0 ?P =
            allocBuf_loop simple_fs (0 + 1)
              (?P\<lparr>bufDescTable := (bufDescTable ?P)[unat (clockHand ?P) :=
                    (bufDescTable ?P ! unat (clockHand ?P))\<lparr>refbit := False\<rparr>],
                 clockHand := (clockHand ?P + 1) mod numBufs ?P\<rparr>)"
    by blast
  then have e1: "allocBuf_loop simple_fs 0 ?P =
     allocBuf_loop simple_fs 1
       (?P\<lparr>bufDescTable := [frame 0 7 1 1 False False, frame 1 7 2 0 False False],
           clockHand := 1\<rparr>)"
    by (simp only: st) simp
  from T p have "bufDescTable (snd (allocBuf_loop simple_fs 0 ?P)) ! unat (clockHand ?P) =
            (bufDescTable ?P ! unat (clockHand ?P))\<lparr>refbit := False\<rparr>"
    by blast
  then have e2: "bufDescTable (snd (allocBuf_loop simple_fs 0 ?P)) ! 0 = frame 0 7 1 1 False False"
    by (simp only: n)
  let ?Q = "pool_two_files"
  have hq: "unat (clockHand ?Q) < length (bufDescTable ?Q)"
    by (simp add: pool_two_files_def fixture_defs)
  have m: "unat (clockHand ?Q) = 3" "pinCnt (bufDescTable ?Q ! 3) = 0"
    "refbit (bufDescTable ?Q ! 3)" "numBufs ?Q \<noteq> 0"
    by (simp_all add: pool_two_files_def fixture_defs)
  have sq: "?Q\<lparr>bufDescTable := (bufDescTable ?Q)[unat (clockHand ?Q) :=
                 (bufDescTable ?Q ! unat (clockHand ?Q))\<lparr>refbit := False\<rparr>],
              clockHand := (clockHand ?Q + 1) mod numBufs ?Q\<rparr> =
            ?Q\<lparr>bufDescTable := [frame 0 7 1 0 True False, frame 1 8 1 0 True False,
                 frame 2 7 3 0 False False, frame 3 7 4 0 True False],
              clockHand := 0\<rparr>"
    by (simp add: pool_two_files_def fixture_defs)
  have q: "pinCnt (bufDescTable ?Q ! unat (clockHand ?Q)) = 0 \<and>
           refbit (bufDescTable ?Q ! unat (clockHand ?Q)) \<and> numBufs ?Q \<noteq> 0"
    by (simp add: m)
  note U = allocBuf_loop_refbits[OF hq, of 0 simple_fs]
  from U q have "allocBuf_loop simple_fs 0 ?Q =
            allocBuf_loop simple_fs 0
              (?Q\<lparr>bufDescTable := (bufDescTable ?Q)[unat (clockHand ?Q) :=
                    (bufDescTable ?Q ! unat (clockHand ?Q))\<lparr>refbit := False\<rparr>],
                 clockHand := (clockHand ?Q + 1) mod numBufs ?Q\<rparr>)"
    by blast
  then have e3: "allocBuf_loop simple_fs 0 ?Q =
     allocBuf_loop simple_fs 0
       (?Q\<lparr>bufDescTable := [frame 0 7 1 0 True False, frame 1 8 1 0 True False,
                 frame 2 7 3 0 False False, frame 3 7 4 0 True False],
           clockHand := 0\<rparr>)"
    by (simp only: sq)
  from U q have "\<not> refbit (bufDescTable (snd (allocBuf_loop simple_fs 0 ?Q)) ! unat (clockHand ?Q))"
    by blast
  then have e4: "\<not> refbit (bufDescTable (snd (allocBuf_loop simple_fs 0 ?Q)) ! 3)"
    by (simp add: m(1))
  from h n(3,2) e1 e2 hq m(2,3) e3 e4 show ?thesis by (intro conjI)
qed

text \<open>
  C6. For every call \<^verbatim>\<open>unPinPage(file, pageNo, dirty)\<close>: when (file, pageNo) is absent from
  the hash table the call returns with the state unchanged; when the mapped frame has
  \<open>pinCnt = 0\<close> it fails with \<open>PageNotPinnedException\<close> (state unchanged); otherwise the
  frame's \<open>pinCnt\<close> goes down by exactly one and its dirty flag becomes true when the
  argument is true and is kept otherwise. (The mapped frame is a frame of the table.)
\<close>

theorem unPinPage_cases:
  "(hashTable s (Some f, Some p) = None \<longrightarrow> unPinPage f p d s = (Inr (), s)) \<and>
   (\<forall>fr. hashTable s (Some f, Some p) = Some fr \<and> unat fr < length (bufDescTable s) \<longrightarrow>
      (pinCnt (bufDescTable s ! unat fr) = 0 \<longrightarrow>
         unPinPage f p d s = (Inl (PageNotPinnedException f p fr), s)) \<and>
      (pinCnt (bufDescTable s ! unat fr) > 0 \<longrightarrow>
         unPinPage f p d s =
           (Inr (), s\<lparr>bufDescTable := (bufDescTable s)[unat fr :=
              (bufDescTable s ! unat fr)\<lparr>pinCnt := pinCnt (bufDescTable s ! unat fr) - 1,
                 dirty := (dirty (bufDescTable s ! unat fr) \<or> d)\<rparr>]\<rparr>) \<and>
         pinCnt (bufDescTable (snd (unPinPage f p d s)) ! unat fr) + 1 =
           pinCnt (bufDescTable s ! unat fr)))"
  by (auto simp: unPinPage_def Let_def)

theorem unPinPage_cases_witness:
  "unPinPage 7 9 True pool_pins = (Inr (), pool_pins) \<and>
   unPinPage 7 2 False pool_pins = (Inl (PageNotPinnedException 7 2 1), pool_pins) \<and>
   bufDescTable (snd (unPinPage 7 1 True pool_pins)) =
     [frame 0 7 1 1 True False, frame 1 7 2 0 True False] \<and>
   bufDescTable (snd (unPinPage 7 1 False pool_pins)) =
     [frame 0 7 1 1 False False, frame 1 7 2 0 True False]"
  using unPinPage_cases[of pool_pins 7 9 True] unPinPage_cases[of pool_pins 7 2 False]
    unPinPage_cases[of pool_pins 7 1 True] unPinPage_cases[of pool_pins 7 1 False]
  by (simp add: pool_pins_def fixture_defs)

text \<open>
  C7. For every successful call \<^verbatim>\<open>flushFile(F)\<close>: the calls of \<^verbatim>\<open>writePage\<close> it makes are
  exactly those for the frames of \<open>F\<close> that are dirty at the time of the call, in ascending
  order of the frame index; every frame of \<open>F\<close> has its hash entry removed and its
  descriptor cleared; afterwards no frame refers to \<open>F\<close>, and a second \<^verbatim>\<open>flushFile(F)\<close>
  succeeds and changes nothing (no call of \<^verbatim>\<open>writePage\<close>).
\<close>

theorem flushFile_success:
  assumes "flushFile fs f s = (Inr (), s')"
  shows "io_log s' = io_log s @ map (\<lambda>i. WritePage f (bufPool s ! i))
           (filter (\<lambda>i. fileptr (bufDescTable s ! i) = Some f \<and> dirty (bufDescTable s ! i))
              [0..<unat (numBufs s)]) \<and>
         (\<forall>i<unat (numBufs s). fileptr (bufDescTable s ! i) = Some f \<longrightarrow>
            hashTable s' (Some f, pageNo (bufDescTable s ! i)) = None \<and>
            bufDescTable s' ! i = Clear (bufDescTable s ! i)) \<and>
         (\<forall>i<unat (numBufs s). fileptr (bufDescTable s' ! i) \<noteq> Some f) \<and>
         flushFile fs f s' = (Inr (), s')"
proof -
  let ?js = "[0..<unat (numBufs s)]"
  from assms have l: "flushFile_loop fs f ?js s = (Inr (), s')" by (simp add: flushFile_def)
  note L = flushFile_loop_Inr[OF l distinct_upt]
  from L have rng: "\<forall>i<unat (numBufs s). i < length (bufDescTable s)" by simp
  have a: "hashTable s' (Some f, pageNo (bufDescTable s ! i)) = None \<and>
           bufDescTable s' ! i = Clear (bufDescTable s ! i)"
    if "i < unat (numBufs s)" "fileptr (bufDescTable s ! i) = Some f" for i
  proof -
    from that have "(Some f, pageNo (bufDescTable s ! i)) \<in> flushed_keys f (bufDescTable s) ?js"
      unfolding flushed_keys_def by auto
    with L that rng show ?thesis by simp
  qed
  have b: "fileptr (bufDescTable s' ! i) \<noteq> Some f" if "i < unat (numBufs s)" for i
    using L rng that by (cases "fileptr (bufDescTable s ! i) = Some f") (auto simp: Clear_def)
  have "flushFile_loop fs f [0..<unat (numBufs s')] s' = (Inr (), s')"
  proof (rule flushFile_loop_none)
    from L have n: "numBufs s' = numBufs s" "length (bufDescTable s') = length (bufDescTable s)"
      by simp_all
    show "\<forall>i\<in>set [0..<unat (numBufs s')].
            i < length (bufDescTable s') \<and> fileptr (bufDescTable s' ! i) \<noteq> Some f"
      using n rng b by simp
  qed
  then have c: "flushFile fs f s' = (Inr (), s')" by (simp add: flushFile_def)
  from L a b c show ?thesis by simp
qed

theorem flushFile_success_witness:
  "fst (flushFile simple_fs 7 pool_two_files) = Inr () \<and>
   io_log (snd (flushFile simple_fs 7 pool_two_files)) =
     [WritePage 7 page1, WritePage 7 \<lparr>page_number = 4, contents = ''x''\<rparr>] \<and>
   hashTable (snd (flushFile simple_fs 7 pool_two_files)) (Some 7, Some 3) = None \<and>
   bufDescTable (snd (flushFile simple_fs 7 pool_two_files)) ! 3 = free_frame 3 \<and>
   flushFile simple_fs 7 (snd (flushFile simple_fs 7 pool_two_files)) =
     (Inr (), snd (flushFile simple_fs 7 pool_two_files))"
proof -
  have a: "fst (flushFile simple_fs 7 pool_two_files) = Inr ()"
    by (simp add: flushFile_def flushFile_frame_def writePage_call_def simple_fs_def
        has_page_def Let_def upt_rec pool_two_files_def fixture_defs)
  then have b: "flushFile simple_fs 7 pool_two_files =
                  (Inr (), snd (flushFile simple_fs 7 pool_two_files))"
    by (simp add: prod_eq_iff)
  have u: "[0..<4] = [0, 1, 2, 3::nat]"
    by (simp add: upt_rec)
  have n: "unat (numBufs pool_two_files) = 4" "io_log pool_two_files = []"
    "bufDescTable pool_two_files = [frame 0 7 1 0 True False, frame 1 8 1 0 True False,
                 frame 2 7 3 0 False False, frame 3 7 4 0 True True]"
    "bufPool pool_two_files = [page1, page1, \<lparr>page_number = 3, contents = ''x''\<rparr>,
        \<lparr>page_number = 4, contents = ''x''\<rparr>]"
    by (simp_all add: pool_two_files_def fixture_defs)
  from flushFile_success[OF b] have
    "io_log (snd (flushFile simple_fs 7 pool_two_files)) =
       [WritePage 7 page1, WritePage 7 \<lparr>page_number = 4, contents = ''x''\<rparr>]"
    and "\<forall>i<4. fileptr (bufDescTable pool_two_files ! i) = Some 7 \<longrightarrow>
            hashTable (snd (flushFile simple_fs 7 pool_two_files))
              (Some 7, pageNo (bufDescTable pool_two_files ! i)) = None \<and>
            bufDescTable (snd (flushFile simple_fs 7 pool_two_files)) ! i =
              Clear (bufDescTable pool_two_files ! i)"
    and c: "flushFile simple_fs 7 (snd (flushFile simple_fs 7 pool_two_files)) =
              (Inr (), snd (flushFile simple_fs 7 pool_two_files))"
    by (simp_all add: n u frame_def)
  then show ?thesis using a
    by (simp add: n frame_def free_frame_def new_BufDesc_def Clear_def less_Suc_eq numeral_eq_Suc)
qed

lemma pool_one_free_bijection: "hash_frame_bijection pool_one_free"
  by (simp add: hash_frame_bijection_def pool_one_free_def fixture_defs less_Suc_eq
      split: if_splits)

lemma allocPage_breaks_bijection:
  "\<not> hash_frame_bijection (snd (allocPage simple_fs 7 pool_one_free))"
proof
  let ?S = "snd (allocPage simple_fs 7 pool_one_free)"
  assume b: "hash_frame_bijection ?S"
  have f: "bufDescTable ?S = [frame 0 7 6 1 False False, free_frame 1]"
    "hashTable ?S (Some 7, Some 6) = Some 1"
    by (simp_all add: allocPage_def sweep_defs pool_one_free_def fixture_defs simple_fs_def Set_def)
  have len: "0 < length (bufDescTable ?S)" using f(1) by simp
  from b len have "valid (bufDescTable ?S ! 0) \<longrightarrow>
        hashTable ?S (fileptr (bufDescTable ?S ! 0), pageNo (bufDescTable ?S ! 0)) = Some (of_nat 0)"
    unfolding hash_frame_bijection_def by blast
  with f show False by (simp add: frame_def)
qed



text \<open>
  C9. If the call of \<^verbatim>\<open>writePage\<close> that \<^verbatim>\<open>allocBuf\<close> makes for a dirty victim fails, the error
  propagates and the victim is left as it was. Precisely: let the sweep of \<^verbatim>\<open>allocBuf\<close>
  started in \<open>s\<close> come to a state \<open>t\<close> in which the frame under the hand is the victim, dirty
  and owned by the file \<open>f\<close>, and let \<^verbatim>\<open>f->writePage\<close> of the victim's page fail with the I/O
  error \<open>x\<close>. Then \<^verbatim>\<open>allocBuf\<close> ends with that error in the state \<open>t\<close> with the failed call
  logged; so do the operations that called it (\<^verbatim>\<open>readPage\<close> on a miss, \<^verbatim>\<open>allocPage\<close> after
  the file has allocated the page). In the final state the hash table, the pool and the disk
  are those of \<open>s\<close>, and the victim is still dirty, as valid as it was, and still bound to its
  file and page number: neither \<^verbatim>\<open>remove\<close> nor \<^verbatim>\<open>Clear\<close> has run. Of the whole frame table only
  reference bits have changed, from true to false (the victim's own may have been cleared
  by the sweep before it came back to it).
\<close>

theorem allocBuf_failed_writeback:
  assumes sw: "sweeps fs 0 s c t" and dv: "dirty_victim t f"
    and wr: "f_writePage fs (disk t) f (bufPool t ! unat (clockHand t)) = Inl x"
    and s': "s' = t\<lparr>io_log := io_log t @ [WritePage f (bufPool t ! unat (clockHand t))]\<rparr>"
  shows "allocBuf fs s = (Inl (FileException x), s') \<and>
         hashTable s' = hashTable s \<and> bufPool s' = bufPool s \<and> disk s' = disk s \<and>
         clockHand s' = clockHand t \<and> bufDescTable s' = bufDescTable t \<and>
         refbits_cleared (bufDescTable s) (bufDescTable s') \<and>
         bufDescTable s' ! unat (clockHand s') =
           (bufDescTable s ! unat (clockHand s'))\<lparr>refbit := False\<rparr> \<and>
         dirty (bufDescTable s ! unat (clockHand s')) \<and>
         dirty (bufDescTable s' ! unat (clockHand s')) \<and>
         valid (bufDescTable s' ! unat (clockHand s')) =
           valid (bufDescTable s ! unat (clockHand s')) \<and>
         fileptr (bufDescTable s' ! unat (clockHand s')) = Some f \<and>
         fileptr (bufDescTable s ! unat (clockHand s')) = Some f \<and>
         pageNo (bufDescTable s' ! unat (clockHand s')) =
           pageNo (bufDescTable s ! unat (clockHand s')) \<and>
         (hashTable s (Some g, Some p) = None \<longrightarrow>
            readPage fs g p s = (Inl (FileException x), s')) \<and>
         (\<forall>s0 pg. f_allocatePage fs (disk s0) g = Inr (pg, disk s) \<and>
                 s = s0\<lparr>io_log := io_log s0 @ [AllocatePage g], disk := disk s\<rparr> \<longrightarrow>
            allocPage fs g s0 = (Inl (FileException x), s'))"
proof -
  let ?h = "unat (clockHand t)"
  from sweeps_loop[OF sw] victim_write_fails[OF dv wr, of c] s'
  have ab: "allocBuf fs s = (Inl (FileException x), s')" by (simp add: allocBuf_def)
  note fr = sweeps_frames[OF sw]
  from s' have st: "hashTable s' = hashTable t" "bufPool s' = bufPool t" "disk s' = disk t"
    "clockHand s' = clockHand t" "bufDescTable s' = bufDescTable t" by simp_all
  from fr st have rc: "refbits_cleared (bufDescTable s) (bufDescTable s')" by simp
  from dv have v: "?h < length (bufDescTable t)" "\<not> refbit (bufDescTable t ! ?h)"
    "dirty (bufDescTable t ! ?h)" "fileptr (bufDescTable t ! ?h) = Some f"
    by (simp_all add: dirty_victim_def Let_def)
  from rc v(1) st have h: "?h < length (bufDescTable s)" by (simp add: refbits_cleared_def)
  from refbits_cleared_nth[OF rc h] have k: "kept (bufDescTable s ! ?h) (bufDescTable s' ! ?h)" .
  note kf = kept_fields[OF k]
  from k v(2) st have eq: "bufDescTable s' ! ?h = (bufDescTable s ! ?h)\<lparr>refbit := False\<rparr>"
    by (simp add: kept_def)
  have rp: "readPage fs g p s = (Inl (FileException x), s')"
    if "hashTable s (Some g, Some p) = None"
    using that ab by (simp add: readPage_def)
  have ap: "allocPage fs g s0 = (Inl (FileException x), s')"
    if "f_allocatePage fs (disk s0) g = Inr (pg, disk s) \<and>
        s = s0\<lparr>io_log := io_log s0 @ [AllocatePage g], disk := disk s\<rparr>" for s0 pg
  proof -
    from that have "allocBuf fs (s0\<lparr>io_log := io_log s0 @ [AllocatePage g], disk := disk s\<rparr>)
        = (Inl (FileException x), s')"
      using ab by simp
    with that show ?thesis by (simp add: allocPage_def Let_def)
  qed
  from ab fr st rc eq kf v rp ap show ?thesis by (simp only: st simp_thms) blast
qed


theorem allocBuf_failed_writeback_witness:
  "sweeps simple_fs 0 pool_lost_page 0
     (pool_lost_page\<lparr>bufDescTable := [frame 0 7 1 0 True False]\<rparr>) \<and>
   dirty_victim (pool_lost_page\<lparr>bufDescTable := [frame 0 7 1 0 True False]\<rparr>) 7 \<and>
   f_writePage simple_fs [] 7 page1 = Inl 2 \<and>
   allocBuf simple_fs pool_lost_page =
     (Inl (FileException 2),
      pool_lost_page\<lparr>bufDescTable := [frame 0 7 1 0 True False],
         io_log := [WritePage 7 page1]\<rparr>) \<and>
   hashTable pool_lost_page (Some 7, Some 1) = Some 0 \<and>
   readPage simple_fs 7 2 pool_lost_page =
     (Inl (FileException 2),
      pool_lost_page\<lparr>bufDescTable := [frame 0 7 1 0 True False],
         io_log := [WritePage 7 page1]\<rparr>)"
proof -
  let ?P = "pool_lost_page"
  let ?T = "?P\<lparr>bufDescTable := [frame 0 7 1 0 True False]\<rparr>"
  let ?S = "?P\<lparr>bufDescTable := [frame 0 7 1 0 True False], io_log := [WritePage 7 page1]\<rparr>"
  have h: "unat (clockHand ?P) < length (bufDescTable ?P)"
    and i: "inspect simple_fs 0 ?P = Go_on 0"
    and a: "advanceClock (clear_refbit ?P) = Inr ?T"
    by (simp_all add: inspect_def advanceClock_def clear_refbit_def Let_def
        pool_lost_page_def fixture_defs)
  from sweeps.pass[OF h i a sweeps.here] have sw: "sweeps simple_fs 0 ?P 0 ?T" .
  have dv: "dirty_victim ?T 7"
    by (simp add: dirty_victim_def Let_def pool_lost_page_def fixture_defs)
  have n: "disk ?T = []" "bufPool ?T ! unat (clockHand ?T) = page1" "io_log ?T = []"
    "hashTable ?P (Some 7, Some 1) = Some 0" "hashTable ?P (Some 7, Some 2) = None"
    "bufPool ?P ! unat (clockHand ?P) = page1" "io_log ?P = []"
    by (simp_all add: pool_lost_page_def fixture_defs)
  have w0: "f_writePage simple_fs [] 7 page1 = Inl 2"
    by (simp add: simple_fs_def has_page_def)
  then have wr: "f_writePage simple_fs (disk ?T) 7 (bufPool ?T ! unat (clockHand ?T)) = Inl 2"
    by (simp only: n)
  have s': "?S = ?T\<lparr>io_log := io_log ?T @ [WritePage 7 (bufPool ?T ! unat (clockHand ?T))]\<rparr>"
    by (simp add: n)
  note T = allocBuf_failed_writeback[OF sw dv wr s', of 7 2]
  from T have t1: "allocBuf simple_fs ?P = (Inl (FileException 2), ?S)" by blast
  from T n(5) have t2: "readPage simple_fs 7 2 ?P = (Inl (FileException 2), ?S)" by blast
  from sw dv w0 t1 n(4) t2 show ?thesis by (intro conjI)
qed

text \<open>
  C10. \<^verbatim>\<open>allocPage\<close> calls \<^verbatim>\<open>file->allocatePage()\<close> before \<^verbatim>\<open>allocBuf\<close>: whenever a call of
  \<^verbatim>\<open>allocPage\<close> ends with \<open>BufferExceededException\<close>, the file has allocated a page, the
  disk of the final state is the disk after that allocation (nothing rolls it back) and the
  call of \<^verbatim>\<open>allocatePage\<close> is the one call added to the log, while the hash table is as it
  was before the call and no frame has changed its owner or its \<open>valid\<close> flag: no hash
  entry and no frame binding has been made for the new page.
\<close>

theorem allocPage_PoolExhausted_after_allocation:
  assumes "allocPage fs f s = (Inl BufferExceededException, s')"
  shows "\<exists>pg. f_allocatePage fs (disk s) f = Inr (pg, disk s') \<and>
           io_log s' = io_log s @ [AllocatePage f] \<and>
           allocBuf fs (s\<lparr>io_log := io_log s @ [AllocatePage f], disk := disk s'\<rparr>)
             = (Inl BufferExceededException, s') \<and>
           hashTable s' = hashTable s \<and> bufPool s' = bufPool s \<and>
           refbits_cleared (bufDescTable s) (bufDescTable s') \<and>
           (hashTable s (Some f, Some (page_number pg)) = None \<longrightarrow>
              hashTable s' (Some f, Some (page_number pg)) = None) \<and>
           (\<forall>i<length (bufDescTable s).
              (fileptr (bufDescTable s' ! i), pageNo (bufDescTable s' ! i)) =
              (fileptr (bufDescTable s ! i), pageNo (bufDescTable s ! i)) \<and>
              valid (bufDescTable s' ! i) = valid (bufDescTable s ! i))"
proof (cases "f_allocatePage fs (disk s) f")
  case (Inl e)
  with assms show ?thesis by (simp add: allocPage_def Let_def)
next
  case (Inr r)
  obtain pg d' where r: "r = (pg, d')" by (cases r)
  let ?s1 = "s\<lparr>io_log := io_log s @ [AllocatePage f], disk := d'\<rparr>"
  obtain r1 s2 where ab: "allocBuf fs ?s1 = (r1, s2)" by (cases "allocBuf fs ?s1")
  from assms Inr r ab have r1: "r1 = Inl BufferExceededException" and s2: "s2 = s'"
    by (auto simp: allocPage_def Let_def split: sum.splits if_splits)
  from ab r1 s2 have l: "allocBuf_loop fs 0 ?s1 = (Inl BufferExceededException, s')"
    by (simp add: allocBuf_def)
  note e = allocBuf_loop_error[OF l] and w = allocBuf_loop_swept[OF l]
  from e have d: "disk s' = d'" "io_log s' = io_log s @ [AllocatePage f]"
    "hashTable s' = hashTable s" and rc: "refbits_cleared (bufDescTable s) (bufDescTable s')"
    by simp_all
  have "(fileptr (bufDescTable s' ! i), pageNo (bufDescTable s' ! i)) =
        (fileptr (bufDescTable s ! i), pageNo (bufDescTable s ! i)) \<and>
        valid (bufDescTable s' ! i) = valid (bufDescTable s ! i)"
    if "i < length (bufDescTable s)" for i
    using kept_fields[OF refbits_cleared_nth[OF rc that]] by simp
  with Inr r d rc w ab r1 s2 show ?thesis by auto
qed

theorem allocPage_PoolExhausted_after_allocation_witness:
  "fst (allocPage simple_fs 7 pool_all_pinned) = Inl BufferExceededException \<and>
   disk (snd (allocPage simple_fs 7 pool_all_pinned)) = [(7, page1), (7, \<lparr>page_number = 2, contents = []\<rparr>)] \<and>
   io_log (snd (allocPage simple_fs 7 pool_all_pinned)) = [AllocatePage 7] \<and>
   hashTable (snd (allocPage simple_fs 7 pool_all_pinned)) (Some 7, Some 2) = None \<and>
   fileptr (bufDescTable (snd (allocPage simple_fs 7 pool_all_pinned)) ! 0) = Some 7 \<and>
   pageNo (bufDescTable (snd (allocPage simple_fs 7 pool_all_pinned)) ! 0) = Some 1"
proof -
  have a: "fst (allocPage simple_fs 7 pool_all_pinned) = Inl BufferExceededException"
    by (simp add: allocPage_def sweep_defs simple_fs_def pool_all_pinned_def fixture_defs)
  then have b: "allocPage simple_fs 7 pool_all_pinned =
                  (Inl BufferExceededException, snd (allocPage simple_fs 7 pool_all_pinned))"
    by (simp add: prod_eq_iff)
  have n: "bufDescTable pool_all_pinned = [frame 0 7 1 1 False False]"
    "hashTable pool_all_pinned (Some 7, Some 2) = None"
    "io_log pool_all_pinned = []" "disk pool_all_pinned = [(7, page1)]"
    "f_allocatePage simple_fs [(7, page1)] 7 =
       Inr (\<lparr>page_number = 2, contents = []\<rparr>, [(7, page1), (7, \<lparr>page_number = 2, contents = []\<rparr>)])"
    by (simp_all add: pool_all_pinned_def fixture_defs simple_fs_def Let_def)
  from allocPage_PoolExhausted_after_allocation[OF b] a show ?thesis
    by (auto simp: n frame_def)
qed

section \<open>Further properties of the code\<close>

text \<open>
  When \<^verbatim>\<open>allocBuf\<close> succeeds, the frame under the clock hand was unpinned, its key has been
  removed from the hash table, its descriptor is cleared (not valid, \<open>pinCnt = 0\<close>), and the
  index returned is that descriptor's \<open>frameNo\<close> (property P5 of the specification).
\<close>

theorem allocBuf_returns_cleared_frame:
  assumes "allocBuf fs s = (Inr fr, s')"
  shows "victim_cleared s fr s' \<and> \<not> valid (bufDescTable s' ! unat (clockHand s')) \<and>
         pinCnt (bufDescTable s' ! unat (clockHand s')) = 0"
proof -
  from assms have "victim_cleared s fr s'" by (simp add: allocBuf_def allocBuf_loop_success)
  then show ?thesis by (simp add: victim_cleared_def Let_def Clear_def)
qed

theorem allocBuf_returns_cleared_frame_witness:
  "allocBuf simple_fs pool_pinned_referenced =
     (Inr 1, snd (allocBuf simple_fs pool_pinned_referenced)) \<and>
   \<not> valid (bufDescTable (snd (allocBuf simple_fs pool_pinned_referenced)) !
              unat (clockHand (snd (allocBuf simple_fs pool_pinned_referenced)))) \<and>
   clockHand (snd (allocBuf simple_fs pool_pinned_referenced)) = 1"
proof -
  let ?S = "snd (allocBuf simple_fs pool_pinned_referenced)"
  have a: "fst (allocBuf simple_fs pool_pinned_referenced) = Inr 1" and h: "clockHand ?S = 1"
    by (simp_all add: sweep_defs pool_pinned_referenced_def fixture_defs)
  then have b: "allocBuf simple_fs pool_pinned_referenced = (Inr 1, ?S)"
    by (simp add: prod_eq_iff)
  from allocBuf_returns_cleared_frame[OF b] b h show ?thesis by simp
qed

text \<open>
  \<^verbatim>\<open>disposePage\<close> on a page that is in the hash table with a valid frame: the entry is
  removed, the frame is cleared, \<^verbatim>\<open>deletePage\<close> is the one call made on the file (no
  \<^verbatim>\<open>writePage\<close>, whatever the dirty flag), and the call succeeds unless \<^verbatim>\<open>deletePage\<close> fails.
\<close>

theorem disposePage_present:
  assumes "hashTable s (Some f, Some p) = Some fr" and "unat fr < length (bufDescTable s)"
    and "valid (bufDescTable s ! unat fr)"
  shows "hashTable (snd (disposePage fs f p s)) (Some f, Some p) = None \<and>
         bufDescTable (snd (disposePage fs f p s)) =
           (bufDescTable s)[unat fr := Clear (bufDescTable s ! unat fr)] \<and>
         io_log (snd (disposePage fs f p s)) = io_log s @ [DeletePage f p] \<and>
         bufPool (snd (disposePage fs f p s)) = bufPool s \<and>
         (fst (disposePage fs f p s) = Inr () \<or>
          (\<exists>x. fst (disposePage fs f p s) = Inl (FileException x) \<and>
               f_deletePage fs (disk s) f p = Inl x))"
  using assms by (auto simp: disposePage_def Let_def split: sum.splits)

theorem disposePage_present_witness:
  "fst (disposePage simple_fs 7 2 pool_pins) = Inr () \<and>
   hashTable (snd (disposePage simple_fs 7 2 pool_pins)) (Some 7, Some 2) = None \<and>
   bufDescTable (snd (disposePage simple_fs 7 2 pool_pins)) =
     [frame 0 7 1 2 False False, free_frame 1] \<and>
   io_log (snd (disposePage simple_fs 7 2 pool_pins)) = [DeletePage 7 2]"
proof -
  have n: "hashTable pool_pins (Some 7, Some 2) = Some 1"
    "unat (1::32 word) < length (bufDescTable pool_pins)"
    "valid (bufDescTable pool_pins ! unat (1::32 word))"
    by (simp_all add: pool_pins_def fixture_defs)
  have m: "io_log pool_pins = []" "disk pool_pins = [(7, page1), (7, page2)]"
    "(bufDescTable pool_pins)[Suc 0 := Clear (bufDescTable pool_pins ! Suc 0)]
      = [frame 0 7 1 2 False False, free_frame 1]"
    "\<And>x. f_deletePage simple_fs [(7, page1), (7, page2)] 7 2 \<noteq> Inl x"
    by (simp_all add: pool_pins_def fixture_defs Clear_def simple_fs_def has_page_def)
  from disposePage_present[OF n, of simple_fs] show ?thesis
    by (simp add: m)
qed

text \<open>
  \<^verbatim>\<open>readPage\<close> on a page that is in the hash table: the frame's reference bit is set, its
  \<open>pinCnt\<close> goes up by one, nothing else changes, and the frame's index is returned.
\<close>

theorem readPage_hit:
  assumes "hashTable s (Some f, Some p) = Some fr" and "unat fr < length (bufDescTable s)"
  shows "readPage fs f p s =
           (Inr fr, s\<lparr>bufDescTable := (bufDescTable s)[unat fr :=
              (bufDescTable s ! unat fr)\<lparr>refbit := True,
                 pinCnt := pinCnt (bufDescTable s ! unat fr) + 1\<rparr>]\<rparr>)"
  using assms by (simp add: readPage_def Let_def)

theorem readPage_hit_witness:
  "readPage simple_fs 7 2 pool_pins =
     (Inr 1, pool_pins\<lparr>bufDescTable := [frame 0 7 1 2 False False, frame 1 7 2 1 True True]\<rparr>)"
proof -
  have n: "hashTable pool_pins (Some 7, Some 2) = Some 1"
    "unat (1::32 word) < length (bufDescTable pool_pins)"
    by (simp_all add: pool_pins_def fixture_defs)
  have m: "(bufDescTable pool_pins)[unat (1::32 word) :=
              (bufDescTable pool_pins ! unat (1::32 word))\<lparr>refbit := True,
                 pinCnt := pinCnt (bufDescTable pool_pins ! unat (1::32 word)) + 1\<rparr>]
           = [frame 0 7 1 2 False False, frame 1 7 2 1 True True]"
    by (simp add: pool_pins_def fixture_defs)
  from readPage_hit[OF n, of simple_fs] show ?thesis by (simp only: m)
qed


text \<open>
  When every frame is pinned (the table has \<open>numBufs\<close> frames and the hand is inside it),
  \<^verbatim>\<open>allocBuf\<close> raises \<open>BufferExceededException\<close>; \<^verbatim>\<open>allocPage\<close> does not succeed, and a
  \<^verbatim>\<open>readPage\<close> that misses raises it too, without any call on the file.
\<close>

theorem allocBuf_all_pinned:
  assumes "\<forall>i<length (bufDescTable s). pinCnt (bufDescTable s ! i) > 0"
    and "length (bufDescTable s) = unat (numBufs s)"
    and "unat (clockHand s) < unat (numBufs s)"
  shows "fst (allocBuf fs s) = Inl BufferExceededException \<and>
         fst (allocPage fs f s) \<noteq> Inr r \<and>
         (hashTable s (Some f, Some p) = None \<longrightarrow>
            fst (readPage fs f p s) = Inl BufferExceededException \<and>
            io_log (snd (readPage fs f p s)) = io_log s)"
proof -
  from assms(3) have nz: "0 < unat (numBufs s)" by simp
  have ab: "fst (allocBuf fs s') = Inl BufferExceededException"
    if "bufDescTable s' = bufDescTable s" "numBufs s' = numBufs s" "clockHand s' = clockHand s"
    for s' :: "'a state"
    unfolding allocBuf_def
    by (rule allocBuf_loop_all_pinned) (use that assms nz in simp_all)
  have a: "fst (allocBuf fs s) = Inl BufferExceededException" by (rule ab) simp_all
  have b: "fst (allocPage fs f s) \<noteq> Inr r"
  proof (cases "f_allocatePage fs (disk s) f")
    case (Inl e)
    then show ?thesis by (simp add: allocPage_def Let_def)
  next
    case (Inr q)
    obtain pg d' where q: "q = (pg, d')" by (cases q)
    let ?s1 = "s\<lparr>io_log := io_log s @ [AllocatePage f], disk := d'\<rparr>"
    have "fst (allocBuf fs ?s1) = Inl BufferExceededException" by (rule ab) simp_all
    then obtain s2 where "allocBuf fs ?s1 = (Inl BufferExceededException, s2)"
      by (cases "allocBuf fs ?s1") simp
    with Inr q show ?thesis by (simp add: allocPage_def Let_def)
  qed
  have c: "fst (readPage fs f p s) = Inl BufferExceededException \<and>
           io_log (snd (readPage fs f p s)) = io_log s"
    if m: "hashTable s (Some f, Some p) = None"
  proof -
    from a obtain s2 where s2: "allocBuf fs s = (Inl BufferExceededException, s2)"
      by (cases "allocBuf fs s") simp
    then have "allocBuf_loop fs 0 s = (Inl BufferExceededException, s2)" by (simp add: allocBuf_def)
    from allocBuf_loop_error[OF this] have "io_log s2 = io_log s" by simp
    with s2 m show ?thesis by (simp add: readPage_def)
  qed
  from a b c show ?thesis by blast
qed

theorem allocBuf_all_pinned_witness:
  "fst (allocBuf simple_fs pool_all_pinned) = Inl BufferExceededException \<and>
   fst (readPage simple_fs 7 2 pool_all_pinned) = Inl BufferExceededException \<and>
   io_log (snd (readPage simple_fs 7 2 pool_all_pinned)) = []"
proof -
  have n: "\<forall>i<length (bufDescTable pool_all_pinned). pinCnt (bufDescTable pool_all_pinned ! i) > 0"
    "length (bufDescTable pool_all_pinned) = unat (numBufs pool_all_pinned)"
    "unat (clockHand pool_all_pinned) < unat (numBufs pool_all_pinned)"
    by (simp_all add: pool_all_pinned_def fixture_defs)
  have m: "hashTable pool_all_pinned (Some 7, Some 2) = None" "io_log pool_all_pinned = []"
    by (simp_all add: pool_all_pinned_def fixture_defs)
  from allocBuf_all_pinned[OF n, of simple_fs 7 _ 2] m show ?thesis by simp
qed


end
